theory Spec2Isabelle
  imports Main "HOL-Library.Word" "HOL-Library.Multiset" "HOL-Library.AList" "HOL-Library.Sublist"
begin

section \<open>zipit: static Huffman coding of byte streams (huffman-encode-decode.py)\<close>

text \<open>
  The model follows the Python source function by function.
  \<^item> A byte (an element of \<open>bytes\<close>, an int in 0..255) is an \<open>8 word\<close>.
  \<^item> Python's unbounded non-negative ints (frequencies, lengths) are \<open>nat\<close>.
  \<^item> Every string of the program is built from the literals "0" and "1", from
    \<open>"{0:08b}".format\<close> and from \<open>bin(byte)[2:].rjust(8, '0')\<close>, so it is a list
    over a two-letter alphabet: \<open>False\<close> is the character 0 and \<open>True\<close> is 1.
  \<^item> A dict keeps insertion order, which decides the order of the heap pushes and of the
    records in the container: the frequency dict is an association list, where
    \<open>AList.update\<close> replaces the value of a present key in place and appends an absent
    key at the end, as \<open>d[k] = v\<close> does. The two code tables are only looked up, so they
    are maps.
  \<^item> Exceptions and \<open>exit(0)\<close> are values of \<open>error\<close>, returned as \<open>Inl\<close>.
\<close>

type_synonym byte = "8 word"
type_synonym bits = "bool list"

datatype error = IndexError | KeyError | ValueError | OverflowError | SystemExit

subsection \<open>class HuffmanNode\<close>

datatype HuffmanNode =
  HuffmanNode (char: "byte option") (freq: nat)
              (left: "HuffmanNode option") (right: "HuffmanNode option")

text \<open>\<open>__lt__\<close>: nodes are compared by frequency only.\<close>

definition node_lt :: "HuffmanNode \<Rightarrow> HuffmanNode \<Rightarrow> bool" where
  "node_lt self other = (freq self < freq other)"

subsection \<open>heapq (CPython Lib/heapq.py), on a list of nodes\<close>

text \<open>
  \<open>_siftdown(heap, startpos, pos)\<close>: \<open>newitem\<close> is \<open>heap[pos]\<close>, read once before the
  loop and kept in a variable; parents move down until \<open>newitem\<close> fits.
  \<open>heappush\<close> and \<open>heappop\<close> call the two sift functions with a position inside
  the list, and every index the loops read is then inside the list too.
\<close>

function siftdown_loop :: "HuffmanNode list \<Rightarrow> nat \<Rightarrow> nat \<Rightarrow> HuffmanNode \<Rightarrow> HuffmanNode list" where
  "siftdown_loop heap startpos pos newitem =
     (if pos > startpos then
        (let parentpos = (pos - 1) div 2;
             parent = heap ! parentpos
         in if node_lt newitem parent
            then siftdown_loop (heap[pos := parent]) startpos parentpos newitem
            else heap[pos := newitem])
      else heap[pos := newitem])"
  by pat_completeness auto
termination
  by (relation "measure (\<lambda>(heap, startpos, pos, newitem). pos)") auto

declare siftdown_loop.simps [simp del]

definition siftdown :: "HuffmanNode list \<Rightarrow> nat \<Rightarrow> nat \<Rightarrow> HuffmanNode list" where
  "siftdown heap startpos pos = siftdown_loop heap startpos pos (heap ! pos)"

text \<open>
  \<open>_siftup(heap, pos)\<close>: the smaller child moves up until a leaf position is reached
  (\<open>childpos\<close> is always \<open>2*pos + 1\<close> at the loop head); the loop returns the list and
  the final \<open>pos\<close>, where \<open>newitem\<close> is stored before \<open>_siftdown\<close> runs.
\<close>

function siftup_loop :: "HuffmanNode list \<Rightarrow> nat \<Rightarrow> nat \<Rightarrow> HuffmanNode list \<times> nat" where
  "siftup_loop heap endpos pos =
     (let childpos = 2 * pos + 1 in
      if childpos < endpos then
        (let rightpos = childpos + 1;
             childpos' = (if rightpos < endpos \<and> \<not> node_lt (heap ! childpos) (heap ! rightpos)
                          then rightpos else childpos)
         in siftup_loop (heap[pos := heap ! childpos']) endpos childpos')
      else (heap, pos))"
  by pat_completeness auto
termination
  by (relation "measure (\<lambda>(heap, endpos, pos). endpos - pos)") (auto simp: Let_def)

declare siftup_loop.simps [simp del]

definition siftup :: "HuffmanNode list \<Rightarrow> nat \<Rightarrow> HuffmanNode list" where
  "siftup heap pos =
     (let endpos = length heap;
          startpos = pos;
          newitem = heap ! pos
      in case siftup_loop heap endpos pos of
           (heap', pos') \<Rightarrow> siftdown (heap'[pos' := newitem]) startpos pos')"

definition heappush :: "HuffmanNode list \<Rightarrow> HuffmanNode \<Rightarrow> HuffmanNode list" where
  "heappush heap item = (let heap' = heap @ [item] in siftdown heap' 0 (length heap' - 1))"

text \<open>\<open>heappop\<close>: \<open>heap.pop()\<close> raises IndexError on the empty list.\<close>

definition heappop :: "HuffmanNode list \<Rightarrow> error + (HuffmanNode \<times> HuffmanNode list)" where
  "heappop heap =
     (if heap = [] then Inl IndexError
      else (let lastelt = last heap;
                heap' = butlast heap
            in if heap' \<noteq> []
               then (let returnitem = heap' ! 0
                     in Inr (returnitem, siftup (heap'[0 := lastelt]) 0))
               else Inr (lastelt, heap')))"

subsection \<open>class HuffmanEncoder\<close>

record HuffmanEncoder =
  codes :: "byte \<rightharpoonup> bits"
  reverse_mapping :: "bits \<rightharpoonup> byte"

text \<open>\<open>__init__\<close>: both tables start empty.\<close>

definition HuffmanEncoder_init :: HuffmanEncoder where
  "HuffmanEncoder_init = \<lparr>codes = Map.empty, reverse_mapping = Map.empty\<rparr>"

text \<open>
  \<open>build_frequency_dict\<close>: \<open>frequency[char] += 1\<close> on a \<open>defaultdict(int)\<close> reads
  0 for an absent key and stores the incremented count.
\<close>

definition build_frequency_dict :: "byte list \<Rightarrow> (byte \<times> nat) list" where
  "build_frequency_dict data =
     foldl (\<lambda>frequency char.
              AList.update char ((case map_of frequency char of None \<Rightarrow> 0 | Some n \<Rightarrow> n) + 1)
                frequency)
           [] data"

text \<open>\<open>build_heap\<close>: one leaf per item of the dict, pushed in the dict's order.\<close>

definition build_heap :: "(byte \<times> nat) list \<Rightarrow> HuffmanNode list" where
  "build_heap frequency =
     foldl (\<lambda>heap (char, freq). heappush heap (HuffmanNode (Some char) freq None None))
           [] frequency"

text \<open>
  \<open>build_huffman_tree\<close>: while more than one node is left, the two smallest are popped
  and their parent is pushed; \<open>heap[0]\<close> raises IndexError on the empty heap. The loop
  is bounded by the length of the heap, which each round shortens by one.
\<close>

lemma length_siftdown_loop [simp]:
  "length (siftdown_loop heap startpos pos newitem) = length heap"
  by (induction heap startpos pos newitem rule: siftdown_loop.induct)
     (subst siftdown_loop.simps, simp add: Let_def)

lemma length_siftdown [simp]: "length (siftdown heap startpos pos) = length heap"
  by (simp add: siftdown_def)

lemma length_siftup_loop [simp]: "length (fst (siftup_loop heap endpos pos)) = length heap"
  by (induction heap endpos pos rule: siftup_loop.induct)
     (subst siftup_loop.simps, simp add: Let_def)

lemma length_siftup [simp]: "length (siftup heap pos) = length heap"
  by (simp add: siftup_def Let_def split_def)

lemma length_heappush [simp]: "length (heappush heap item) = Suc (length heap)"
  by (simp add: heappush_def Let_def)

lemma length_heappop: "heappop heap = Inr (item, heap') \<Longrightarrow> Suc (length heap') = length heap"
  by (cases heap rule: rev_cases) (auto simp: heappop_def Let_def split: if_splits)

function build_huffman_tree :: "HuffmanNode list \<Rightarrow> error + HuffmanNode" where
  "build_huffman_tree heap =
     (if length heap > 1 then
        (case heappop heap of
           Inl e \<Rightarrow> Inl e
         | Inr (node1, heap1) \<Rightarrow>
             (case heappop heap1 of
                Inl e \<Rightarrow> Inl e
              | Inr (node2, heap2) \<Rightarrow>
                  (let merged = HuffmanNode None (freq node1 + freq node2) (Some node1) (Some node2)
                   in build_huffman_tree (heappush heap2 merged))))
      else (case heap of [] \<Rightarrow> Inl IndexError | root # _ \<Rightarrow> Inr root))"
  by pat_completeness auto
termination
proof (relation "measure length", goal_cases)
  case 1
  show ?case by simp
next
  case (2 heap x2 node1 heap1 x2a node2 heap2 merged)
  from 2 have "Suc (length heap1) = length heap" "Suc (length heap2) = length heap1"
    by (auto dest: length_heappop)
  then show ?case by simp
qed

declare build_huffman_tree.simps [simp del]

text \<open>
  \<open>build_codes_helper\<close>: a missing node is skipped, a node that holds a character is
  a leaf and records the path so far in both tables, any other node passes the path
  extended by 0 to its left child and by 1 to its right child.
\<close>

fun build_codes_helper :: "HuffmanNode option \<Rightarrow> bits \<Rightarrow> HuffmanEncoder \<Rightarrow> HuffmanEncoder" where
  "build_codes_helper None current_code self = self"
| "build_codes_helper (Some (HuffmanNode (Some c) f l r)) current_code self =
     self\<lparr>codes := (codes self)(c \<mapsto> current_code),
          reverse_mapping := (reverse_mapping self)(current_code \<mapsto> c)\<rparr>"
| "build_codes_helper (Some (HuffmanNode None f l r)) current_code self =
     build_codes_helper r (current_code @ [True])
       (build_codes_helper l (current_code @ [False]) self)"

definition build_codes :: "HuffmanNode \<Rightarrow> HuffmanEncoder \<Rightarrow> HuffmanEncoder" where
  "build_codes root self = build_codes_helper (Some root) [] self"

text \<open>\<open>get_encoded_text\<close>: \<open>self.codes[char]\<close> raises KeyError for a missing key.\<close>

fun get_encoded_text_loop :: "(byte \<rightharpoonup> bits) \<Rightarrow> byte list \<Rightarrow> bits \<Rightarrow> error + bits" where
  "get_encoded_text_loop cs [] encoded_text = Inr encoded_text"
| "get_encoded_text_loop cs (c # data) encoded_text =
     (case cs c of
        None \<Rightarrow> Inl KeyError
      | Some code \<Rightarrow> get_encoded_text_loop cs data (encoded_text @ code))"

definition get_encoded_text :: "HuffmanEncoder \<Rightarrow> byte list \<Rightarrow> error + bits" where
  "get_encoded_text self data = get_encoded_text_loop (codes self) data []"

text \<open>
  \<open>bin(n)[2:]\<close> and the digits of the format \<open>b\<close>: the binary digits of \<open>n\<close>, most
  significant first, the single digit 0 for \<open>n = 0\<close>. \<open>rjust(8, '0')\<close> and the width
  08 of the format pad on the left with 0 up to eight characters and never cut.
  \<open>int(s, 2)\<close> raises ValueError on the empty string.
\<close>

function bin_digits :: "nat \<Rightarrow> bits" where
  "bin_digits n = (if n = 0 then [] else bin_digits (n div 2) @ [odd n])"
  by pat_completeness auto
termination
  by (relation "measure id") auto

declare bin_digits.simps [simp del]

definition py_bin :: "nat \<Rightarrow> bits" where
  "py_bin n = (if n = 0 then [False] else bin_digits n)"

definition rjust8 :: "bits \<Rightarrow> bits" where
  "rjust8 s = replicate (8 - length s) False @ s"

definition format_08b :: "nat \<Rightarrow> bits" where
  "format_08b n = rjust8 (py_bin n)"

definition bits_value :: "bits \<Rightarrow> nat" where
  "bits_value s = foldl (\<lambda>acc b. 2 * acc + (if b then 1 else 0)) 0 s"

definition int2 :: "bits \<Rightarrow> error + nat" where
  "int2 s = (if s = [] then Inl ValueError else Inr (bits_value s))"

text \<open>
  \<open>pad_encoded_text\<close>: \<open>extra_padding = 8 - len(encoded_text) % 8\<close> zeros are appended
  and the count is put in front as eight binary digits.
\<close>

definition extra_padding :: "bits \<Rightarrow> nat" where
  "extra_padding encoded_text = 8 - length encoded_text mod 8"

definition pad_encoded_text :: "bits \<Rightarrow> bits" where
  "pad_encoded_text encoded_text =
     format_08b (extra_padding encoded_text)
       @ (encoded_text @ replicate (extra_padding encoded_text) False)"

text \<open>
  \<open>get_byte_array\<close>: a length that is not a multiple of 8 ends the process with
  \<open>exit(0)\<close>; otherwise each slice of eight characters is read in base 2 and appended
  to the bytearray, which raises ValueError for a value outside 0..255.
\<close>

function get_byte_array_loop :: "bits \<Rightarrow> error + byte list" where
  "get_byte_array_loop s =
     (if s = [] then Inr []
      else (case int2 (take 8 s) of
              Inl e \<Rightarrow> Inl e
            | Inr n \<Rightarrow>
                if n < 256
                then (case get_byte_array_loop (drop 8 s) of
                        Inl e \<Rightarrow> Inl e
                      | Inr b \<Rightarrow> Inr (of_nat n # b))
                else Inl ValueError))"
  by pat_completeness auto
termination
  by (relation "measure length") auto

declare get_byte_array_loop.simps [simp del]

definition get_byte_array :: "bits \<Rightarrow> error + byte list" where
  "get_byte_array padded_encoded_text =
     (if length padded_encoded_text mod 8 \<noteq> 0 then Inl SystemExit
      else get_byte_array_loop padded_encoded_text)"

text \<open>
  \<open>n.to_bytes(k, byteorder='big')\<close> raises OverflowError when \<open>n\<close> does not fit in
  \<open>k\<close> bytes; \<open>int.from_bytes(bs, byteorder='big')\<close> reads any number of bytes.
\<close>

fun to_bytes_big :: "nat \<Rightarrow> nat \<Rightarrow> byte list" where
  "to_bytes_big 0 n = []"
| "to_bytes_big (Suc k) n = to_bytes_big k (n div 256) @ [of_nat (n mod 256)]"

definition to_bytes :: "nat \<Rightarrow> nat \<Rightarrow> error + byte list" where
  "to_bytes n k = (if n < 256 ^ k then Inr (to_bytes_big k n) else Inl OverflowError)"

definition from_bytes :: "byte list \<Rightarrow> nat" where
  "from_bytes bs = foldl (\<lambda>acc b. 256 * acc + unat b) 0 bs"

text \<open>The loop of \<open>compress\<close> that writes one record per item of the frequency dict.\<close>

fun write_frequency :: "(byte \<times> nat) list \<Rightarrow> error + byte list" where
  "write_frequency [] = Inr []"
| "write_frequency ((c, f) # items) =
     (case to_bytes f 4 of
        Inl e \<Rightarrow> Inl e
      | Inr fb \<Rightarrow>
          (case write_frequency items of
             Inl e \<Rightarrow> Inl e
           | Inr out \<Rightarrow> Inr (c # fb @ out)))"

text \<open>
  \<open>compress\<close>, from the bytes read from the input file to the bytes written to the
  output file. The output file is opened after the packed bytes are computed; an
  exception leaves no complete container, which is the result \<open>Inl\<close>.
\<close>

definition compress :: "HuffmanEncoder \<Rightarrow> byte list \<Rightarrow> error + byte list" where
  "compress self data =
     (let frequency = build_frequency_dict data;
          heap = build_heap frequency
      in case build_huffman_tree heap of
           Inl e \<Rightarrow> Inl e
         | Inr root \<Rightarrow>
             (let self' = build_codes root self
              in case get_encoded_text self' data of
                   Inl e \<Rightarrow> Inl e
                 | Inr encoded_text \<Rightarrow>
                     (let padded_encoded_text = pad_encoded_text encoded_text
                      in case get_byte_array padded_encoded_text of
                           Inl e \<Rightarrow> Inl e
                         | Inr byte_array \<Rightarrow>
                             (case to_bytes (length frequency) 2 of
                                Inl e \<Rightarrow> Inl e
                              | Inr size_bytes \<Rightarrow>
                                  (case write_frequency frequency of
                                     Inl e \<Rightarrow> Inl e
                                   | Inr records \<Rightarrow>
                                       Inr (size_bytes @ records @ byte_array))))))"

subsection \<open>class HuffmanDecoder\<close>

text \<open>
  \<open>remove_padding\<close>: the slice \<open>s[:-k]\<close> stops \<open>k\<close> characters before the end for
  \<open>k > 0\<close>, and is \<open>s[:0]\<close>, the empty string, for \<open>k = 0\<close>.
\<close>

definition slice_to_minus :: "bits \<Rightarrow> nat \<Rightarrow> bits" where
  "slice_to_minus s k = (if k = 0 then [] else take (length s - k) s)"

definition remove_padding :: "bits \<Rightarrow> error + bits" where
  "remove_padding padded_encoded_text =
     (let padded_info = take 8 padded_encoded_text
      in case int2 padded_info of
           Inl e \<Rightarrow> Inl e
         | Inr k \<Rightarrow> Inr (slice_to_minus (drop 8 padded_encoded_text) k))"

text \<open>
  \<open>decode_text\<close>: each bit is appended to \<open>current_code\<close>; when that is a key of
  the reverse mapping its character is emitted and \<open>current_code\<close> is reset. The
  function returns the decoded bytes when the bits run out, whatever
  \<open>current_code\<close> holds then.
\<close>

fun decode_text_loop :: "(bits \<rightharpoonup> byte) \<Rightarrow> bits \<Rightarrow> bits \<Rightarrow> byte list \<Rightarrow> byte list" where
  "decode_text_loop rm [] current_code decoded_text = decoded_text"
| "decode_text_loop rm (b # encoded_text) current_code decoded_text =
     (let current_code' = current_code @ [b]
      in case rm current_code' of
           Some c \<Rightarrow> decode_text_loop rm encoded_text [] (decoded_text @ [c])
         | None \<Rightarrow> decode_text_loop rm encoded_text current_code' decoded_text)"

definition decode_text :: "(bits \<rightharpoonup> byte) \<Rightarrow> bits \<Rightarrow> byte list" where
  "decode_text rm encoded_text = decode_text_loop rm encoded_text [] []"

text \<open>
  The loop of \<open>decompress\<close> that reads the frequency records: \<open>file.read(1)[0]\<close>
  raises IndexError at the end of the file, \<open>file.read(4)\<close> returns the bytes that
  are left when fewer than four are.
\<close>

fun read_frequency ::
  "nat \<Rightarrow> byte list \<Rightarrow> (byte \<times> nat) list \<Rightarrow> error + ((byte \<times> nat) list \<times> byte list)" where
  "read_frequency 0 file frequency = Inr (frequency, file)"
| "read_frequency (Suc n) file frequency =
     (case file of
        [] \<Rightarrow> Inl IndexError
      | c # file' \<Rightarrow>
          (let f = from_bytes (take 4 file')
           in read_frequency n (drop 4 file') (AList.update c f frequency)))"

definition read_header :: "byte list \<Rightarrow> error + ((byte \<times> nat) list \<times> byte list)" where
  "read_header file =
     (let freq_dict_size = from_bytes (take 2 file)
      in read_frequency freq_dict_size (drop 2 file) [])"

definition byte_bits :: "byte \<Rightarrow> bits" where
  "byte_bits b = rjust8 (py_bin (unat b))"

definition decompress :: "byte list \<Rightarrow> error + byte list" where
  "decompress file =
     (case read_header file of
        Inl e \<Rightarrow> Inl e
      | Inr (frequency, rest) \<Rightarrow>
          (let heap = build_heap frequency
           in case build_huffman_tree heap of
                Inl e \<Rightarrow> Inl e
              | Inr root \<Rightarrow>
                  (let encoder = build_codes root HuffmanEncoder_init;
                       bit_string = concat (map byte_bits rest)
                   in case remove_padding bit_string of
                        Inl e \<Rightarrow> Inl e
                      | Inr encoded_text \<Rightarrow>
                          Inr (decode_text (reverse_mapping encoder) encoded_text))))"

text \<open>Compressing with a new encoder and decompressing what it wrote.\<close>

definition roundtrip :: "byte list \<Rightarrow> error + byte list" where
  "roundtrip data =
     (case compress HuffmanEncoder_init data of
        Inl e \<Rightarrow> Inl e
      | Inr container \<Rightarrow> decompress container)"

subsection \<open>Notions used in the statements and proofs\<close>

text \<open>
  The leaves that \<open>build_codes_helper\<close> visits below a node, in the order of the
  visit, each with the path of 0s and 1s that leads to it.
\<close>

fun leaf_paths :: "HuffmanNode option \<Rightarrow> (bits \<times> byte) list" where
  "leaf_paths None = []"
| "leaf_paths (Some (HuffmanNode (Some c) f l r)) = [([], c)]"
| "leaf_paths (Some (HuffmanNode None f l r)) =
     map (\<lambda>(p, c). (False # p, c)) (leaf_paths l) @ map (\<lambda>(p, c). (True # p, c)) (leaf_paths r)"

definition node_chars :: "HuffmanNode \<Rightarrow> byte multiset" where
  "node_chars n = mset (map snd (leaf_paths (Some n)))"

definition forest_chars :: "HuffmanNode list \<Rightarrow> byte multiset" where
  "forest_chars heap = (\<Sum>n\<in>#mset heap. node_chars n)"

text \<open>The count that the frequency dict holds for a byte, 0 when the byte is no key.\<close>

definition count_of :: "(byte \<times> nat) list \<Rightarrow> byte \<Rightarrow> nat" where
  "count_of frequency c = (case map_of frequency c of None \<Rightarrow> 0 | Some n \<Rightarrow> n)"

text \<open>
  The encoder with its two tables as \<open>compress\<close> has it after \<open>build_codes\<close>
  (lines 108 to 111 of the source), and the encoder that \<open>decompress\<close> rebuilds from
  a container, with the bytes that follow the frequency records (lines 170 to 184).
  \<open>compress\<close> and \<open>decompress\<close> are these stages followed by the rest of their
  bodies (lemmas \<open>compress_encoder_state\<close> and \<open>decompress_decoder_encoder\<close>).
\<close>

definition encoder_state :: "HuffmanEncoder \<Rightarrow> byte list \<Rightarrow> error + HuffmanEncoder" where
  "encoder_state self data =
     (let frequency = build_frequency_dict data;
          heap = build_heap frequency
      in case build_huffman_tree heap of
           Inl e \<Rightarrow> Inl e
         | Inr root \<Rightarrow> Inr (build_codes root self))"

definition decoder_encoder :: "byte list \<Rightarrow> error + (HuffmanEncoder \<times> byte list)" where
  "decoder_encoder file =
     (case read_header file of
        Inl e \<Rightarrow> Inl e
      | Inr (frequency, rest) \<Rightarrow>
          (let heap = build_heap frequency
           in case build_huffman_tree heap of
                Inl e \<Rightarrow> Inl e
              | Inr root \<Rightarrow> Inr (build_codes root HuffmanEncoder_init, rest)))"

section \<open>Binary digits\<close>

lemma bits_value_Nil [simp]: "bits_value [] = 0"
  by (simp add: bits_value_def)

lemma bits_value_single [simp]: "bits_value [b] = (if b then 1 else 0)"
  by (simp add: bits_value_def)

lemma bits_value_snoc [simp]: "bits_value (s @ [b]) = 2 * bits_value s + (if b then 1 else 0)"
  by (simp add: bits_value_def)

lemma bits_value_less: "bits_value s < 2 ^ length s"
  by (induction s rule: rev_induct) auto

lemma bin_digits_0 [simp]: "bin_digits 0 = []"
  by (simp add: bin_digits.simps)

lemma bin_digits_double:
  "0 < 2 * n + (if b then 1 else 0) \<Longrightarrow>
   bin_digits (2 * n + (if b then 1 else 0)) = bin_digits n @ [b]"
  by (subst bin_digits.simps) auto

lemma bin_digits_bits_value:
  "length (bin_digits (bits_value s)) \<le> length s \<and>
   replicate (length s - length (bin_digits (bits_value s))) False @ bin_digits (bits_value s) = s"
proof (induction s rule: rev_induct)
  case Nil
  show ?case by simp
next
  case (snoc b s)
  show ?case
  proof (cases "bits_value (s @ [b]) = 0")
    case True
    then have v: "bits_value s = 0" and b: "\<not> b" by (auto split: if_splits)
    from snoc v have r: "replicate (length s) False = s" by simp
    then have "False # s = s @ [False]"
      by (metis replicate_append_same)
    with True b r show ?thesis by simp
  next
    case False
    then have "bin_digits (bits_value (s @ [b])) = bin_digits (bits_value s) @ [b]"
      using bin_digits_double [of "bits_value s" b] by simp
    with snoc show ?thesis by (simp add: Suc_diff_le)
  qed
qed

lemma bits_value_bin_digits [simp]: "bits_value (bin_digits n) = n"
proof (induction n rule: bin_digits.induct)
  case (1 n)
  show ?case
  proof (cases "n = 0")
    case True
    then show ?thesis by simp
  next
    case False
    with 1 have "bits_value (bin_digits (n div 2)) = n div 2" by simp
    with False show ?thesis
      by (subst bin_digits.simps) (auto simp: odd_iff_mod_2_eq_one)
  qed
qed

lemma bits_value_zeros [simp]: "bits_value (replicate k False) = 0"
  by (induction k) (simp_all add: bits_value_def)

lemma bits_value_replicate_False [simp]: "bits_value (replicate k False @ s) = bits_value s"
  using bits_value_zeros [of k] by (simp add: bits_value_def)

lemma length_bin_digits: "n < 2 ^ k \<Longrightarrow> length (bin_digits n) \<le> k"
proof (induction k arbitrary: n)
  case 0
  then show ?case by simp
next
  case (Suc k)
  show ?case
  proof (cases "n = 0")
    case True
    then show ?thesis by simp
  next
    case False
    from Suc.prems have "n div 2 < 2 ^ k" by auto
    then have "length (bin_digits (n div 2)) \<le> k" by (rule Suc.IH)
    with False show ?thesis by (subst bin_digits.simps) simp
  qed
qed

lemma bits_value_format_08b [simp]: "bits_value (format_08b n) = n"
  by (simp add: format_08b_def rjust8_def py_bin_def)

lemma length_format_08b: "n < 256 \<Longrightarrow> length (format_08b n) = 8"
  using length_bin_digits [of n 8]
  by (auto simp: format_08b_def rjust8_def py_bin_def)

lemma format_08b_bits_value: "length s = 8 \<Longrightarrow> format_08b (bits_value s) = s"
proof -
  assume len: "length s = 8"
  show ?thesis
  proof (cases "bits_value s = 0")
    case True
    with bin_digits_bits_value [of s] len have "s = replicate 8 False" by simp
    with True show ?thesis
      by (simp add: format_08b_def rjust8_def py_bin_def numeral_eq_Suc)
  next
    case False
    with bin_digits_bits_value [of s] len show ?thesis
      by (simp add: format_08b_def rjust8_def py_bin_def)
  qed
qed

section \<open>Padding and packing\<close>

lemma extra_padding_range: "1 \<le> extra_padding e \<and> extra_padding e \<le> 8"
  by (simp add: extra_padding_def)

lemma extra_padding_sum: "(length e + extra_padding e) mod 8 = 0"
  by (simp add: extra_padding_def) presburger

lemma length_pad_info [simp]: "length (format_08b (extra_padding e)) = 8"
  using extra_padding_range [of e] by (simp add: length_format_08b)

lemma take_8_pad [simp]: "take 8 (pad_encoded_text e) = format_08b (extra_padding e)"
  by (simp add: pad_encoded_text_def)

lemma drop_8_pad [simp]:
  "drop 8 (pad_encoded_text e) = e @ replicate (extra_padding e) False"
  by (simp add: pad_encoded_text_def)

lemma length_pad: "length (pad_encoded_text e) = 8 + (length e + extra_padding e)"
  by (simp add: pad_encoded_text_def)

lemma length_pad_mod: "length (pad_encoded_text e) mod 8 = 0"
  using extra_padding_sum [of e] by (simp add: length_pad)

lemma int2_format_08b: "n < 256 \<Longrightarrow> int2 (format_08b n) = Inr n"
  using length_format_08b [of n] by (auto simp: int2_def)

lemma byte_bits_of_nat: "length s = 8 \<Longrightarrow> byte_bits (of_nat (bits_value s)) = s"
proof -
  assume len: "length s = 8"
  with bits_value_less [of s] have "bits_value s < 256" by simp
  then have "unat (of_nat (bits_value s) :: byte) = bits_value s"
    by (simp add: unat_of_nat)
  with len show ?thesis
    using format_08b_bits_value [of s] by (simp add: byte_bits_def format_08b_def)
qed

lemma length_byte_bits [simp]: "length (byte_bits b) = 8"
proof -
  have "unat b < 256" using unsigned_less [of b] by simp
  then show ?thesis
    using length_format_08b [of "unat b"] by (simp add: byte_bits_def format_08b_def)
qed

lemma get_byte_array_loop_ok:
  "length s = 8 * n \<Longrightarrow>
   \<exists>b. get_byte_array_loop s = Inr b \<and> concat (map byte_bits b) = s \<and> length b = n"
proof (induction n arbitrary: s)
  case 0
  then show ?case by (subst get_byte_array_loop.simps) simp
next
  case (Suc n)
  let ?h = "take 8 s"
  from Suc.prems have h: "length ?h = 8" and ne: "s \<noteq> []" by auto
  from Suc.prems have "length (drop 8 s) = 8 * n" by simp
  from Suc.IH [OF this] obtain b where
    b: "get_byte_array_loop (drop 8 s) = Inr b" "concat (map byte_bits b) = drop 8 s" "length b = n"
    by blast
  from h bits_value_less [of ?h] have lt: "bits_value ?h < 256" by simp
  from h have i: "int2 ?h = Inr (bits_value ?h)" by (auto simp: int2_def)
  have "get_byte_array_loop s = Inr (of_nat (bits_value ?h) # b)"
    using ne i lt b(1) by (subst get_byte_array_loop.simps) simp
  moreover have "concat (map byte_bits (of_nat (bits_value ?h) # b)) = s"
    using b(2) byte_bits_of_nat [OF h] by simp
  ultimately show ?case using b(3) by simp
qed

lemma get_byte_array_pad:
  "\<exists>b. get_byte_array (pad_encoded_text e) = Inr (of_nat (extra_padding e) # b) \<and>
       concat (map byte_bits b) = e @ replicate (extra_padding e) False"
proof -
  let ?p = "pad_encoded_text e"
  have m: "length ?p mod 8 = 0" by (rule length_pad_mod)
  then have "length ?p = 8 * (length ?p div 8)" by presburger
  from get_byte_array_loop_ok [OF this] obtain b where
    b: "get_byte_array_loop ?p = Inr b" "concat (map byte_bits b) = ?p" by blast
  have ne: "?p \<noteq> []" using length_pad [of e] by auto
  from extra_padding_range [of e] have "extra_padding e < 256" by simp
  then have i: "int2 (take 8 ?p) = Inr (extra_padding e)"
    by (simp add: int2_format_08b)
  from b(1) ne i obtain b' where b': "b = of_nat (extra_padding e) # b'"
    by (subst (asm) get_byte_array_loop.simps) (auto split: sum.splits if_splits)
  from b(2) b' have "byte_bits (of_nat (extra_padding e)) @ concat (map byte_bits b') = ?p"
    by simp
  then have "drop 8 (byte_bits (of_nat (extra_padding e)) @ concat (map byte_bits b')) = drop 8 ?p"
    by simp
  then have "concat (map byte_bits b') = e @ replicate (extra_padding e) False"
    by simp
  with b(1) b' m show ?thesis by (simp add: get_byte_array_def)
qed

lemma remove_padding_pad: "remove_padding (pad_encoded_text e) = Inr e"
  using extra_padding_range [of e]
  by (simp add: remove_padding_def Let_def int2_format_08b slice_to_minus_def)

section \<open>Claims about the padding step\<close>

text \<open>
  C4 as the specification states it: the padding step appends the minimum number of zero
  bits, between 0 and 7, and the padding-count field holds a value in 0..7. It fails on
  the empty bit string (and on every bit string whose length is a multiple of 8): no
  filler bit is needed there, the code appends eight and stores 8 in the field.
\<close>

theorem pad_encoded_text_empty_counterexample:
  "(length ([] :: bits) + 0) mod 8 = 0 \<and>
   drop 8 (pad_encoded_text []) = replicate 8 False \<and>
   int2 (take 8 (pad_encoded_text [])) = Inr 8 \<and>
   \<not> extra_padding [] \<le> 7"
  by (simp add: int2_format_08b extra_padding_def)

text \<open>
  C4, amended: the padding step appends \<open>8 - len mod 8\<close> zero bits, a number between 1
  and 8 that makes the total length a multiple of 8; it is the least such number when
  the length is not a multiple of 8 already, and 8 when it is. The padding-count field
  holds that number, so a value in the range 1 to 8.
\<close>

theorem pad_encoded_text_padding_count:
  "drop 8 (pad_encoded_text e) = e @ replicate (extra_padding e) False \<and>
   int2 (take 8 (pad_encoded_text e)) = Inr (extra_padding e) \<and>
   extra_padding e \<in> {1..8} \<and>
   (length e + extra_padding e) mod 8 = 0 \<and>
   extra_padding e = (if length e mod 8 = 0 then 8 else (LEAST j. (length e + j) mod 8 = 0))"
proof -
  have r: "1 \<le> extra_padding e \<and> extra_padding e \<le> 8" by (rule extra_padding_range)
  then have i: "int2 (take 8 (pad_encoded_text e)) = Inr (extra_padding e)"
    by (simp add: int2_format_08b)
  have l: "(LEAST j. (length e + j) mod 8 = 0) = 8 - length e mod 8" if "length e mod 8 \<noteq> 0"
  proof (rule Least_equality)
    show "(length e + (8 - length e mod 8)) mod 8 = 0"
      using extra_padding_sum [of e] by (simp add: extra_padding_def)
  next
    fix y
    assume "(length e + y) mod 8 = 0"
    then have y: "(length e mod 8 + y) mod 8 = 0" by (simp add: mod_add_left_eq)
    show "8 - length e mod 8 \<le> y"
    proof (rule ccontr)
      assume "\<not> 8 - length e mod 8 \<le> y"
      then have "length e mod 8 + y < 8" by simp
      then have "(length e mod 8 + y) mod 8 = length e mod 8 + y" by simp
      with y that show False by simp
    qed
  qed
  have "extra_padding e = (if length e mod 8 = 0 then 8 else (LEAST j. (length e + j) mod 8 = 0))"
    using l by (simp add: extra_padding_def)
  with r i extra_padding_sum [of e] show ?thesis by simp
qed

theorem pad_encoded_text_padding_count_witness:
  "drop 8 (pad_encoded_text [True, False, True]) = [True, False, True] @ replicate 5 False \<and>
   int2 (take 8 (pad_encoded_text [True, False, True])) = Inr 5"
  using pad_encoded_text_padding_count [of "[True, False, True]"]
  by (simp add: extra_padding_def)

text \<open>
  C5: the padded bit string has a length that is a multiple of 8, so
  \<open>get_byte_array\<close> does not take its "not padded properly" branch on it and returns
  the bytes; the first eight bits, read in base 2, are the number of zero bits that were
  appended behind the encoded text.
\<close>

theorem pad_encoded_text_exact:
  "length (pad_encoded_text e) mod 8 = 0 \<and>
   (\<exists>b. get_byte_array (pad_encoded_text e) = Inr b) \<and>
   length (take 8 (pad_encoded_text e)) = 8 \<and>
   (\<exists>k. drop 8 (pad_encoded_text e) = e @ replicate k False \<and>
        int2 (take 8 (pad_encoded_text e)) = Inr k)"
proof -
  from extra_padding_range [of e]
  have "int2 (take 8 (pad_encoded_text e)) = Inr (extra_padding e)"
    by (simp add: int2_format_08b)
  moreover obtain b where "get_byte_array (pad_encoded_text e) = Inr b"
    using get_byte_array_pad [of e] by blast
  ultimately show ?thesis
    using length_pad_mod [of e] by auto
qed

theorem pad_encoded_text_exact_witness:
  "length (pad_encoded_text [True, True]) = 16 \<and>
   int2 (take 8 (pad_encoded_text [True, True])) = Inr 6"
  using pad_encoded_text_exact [of "[True, True]"]
  by (simp add: length_pad extra_padding_def int2_format_08b)

section \<open>The heap operations keep the nodes\<close>

lemma mset_update_swap:
  assumes i: "i < length xs" and j: "j < length xs"
  shows "mset (xs[i := xs ! j, j := x]) = mset (xs[i := x])"
proof (cases "i = j")
  case True
  then show ?thesis by simp
next
  case False
  let ?ys = "xs[i := x]"
  from False i j have "xs[i := xs ! j, j := x] = ?ys[j := ?ys ! i, i := ?ys ! j]"
    by (simp add: list_update_swap [of i j])
  moreover have "mset (?ys[j := ?ys ! i, i := ?ys ! j]) = mset ?ys"
    using i j by (intro mset_swap) simp_all
  ultimately show ?thesis by simp
qed

lemma mset_siftdown_loop:
  "pos < length heap \<Longrightarrow>
   mset (siftdown_loop heap startpos pos newitem) = mset (heap[pos := newitem])"
proof (induction heap startpos pos newitem rule: siftdown_loop.induct)
  case (1 heap startpos pos newitem)
  let ?pp = "(pos - 1) div 2"
  show ?case
  proof (cases "pos > startpos \<and> node_lt newitem (heap ! ?pp)")
    case True
    from "1.prems" have pp: "?pp < length heap" by simp
    with True "1.IH" [of ?pp "heap ! ?pp"]
    have "mset (siftdown_loop (heap[pos := heap ! ?pp]) startpos ?pp newitem)
          = mset (heap[pos := heap ! ?pp, ?pp := newitem])"
      by simp
    also have "\<dots> = mset (heap[pos := newitem])"
      using "1.prems" pp by (rule mset_update_swap)
    finally show ?thesis
      using True by (subst siftdown_loop.simps) (simp add: Let_def)
  next
    case False
    then show ?thesis
      by (subst siftdown_loop.simps) (auto simp: Let_def)
  qed
qed

lemma mset_siftdown: "pos < length heap \<Longrightarrow> mset (siftdown heap startpos pos) = mset heap"
  by (simp add: siftdown_def mset_siftdown_loop)

lemma siftup_loop_hole:
  "pos < length heap \<Longrightarrow> endpos = length heap \<Longrightarrow>
   snd (siftup_loop heap endpos pos) < length heap \<and>
   mset ((fst (siftup_loop heap endpos pos))[snd (siftup_loop heap endpos pos) := newitem])
     = mset (heap[pos := newitem])"
proof (induction heap endpos pos rule: siftup_loop.induct)
  case (1 heap endpos pos)
  let ?c = "2 * pos + 1"
  show ?case
  proof (cases "?c < endpos")
    case False
    then show ?thesis
      using "1.prems" by (subst (1 2 3) siftup_loop.simps) (simp add: Let_def)
  next
    case True
    let ?c' = "if ?c + 1 < endpos \<and> \<not> node_lt (heap ! ?c) (heap ! (?c + 1)) then ?c + 1 else ?c"
    let ?h = "heap[pos := heap ! ?c']"
    have c': "?c' < length heap" using True "1.prems" by auto
    have step: "siftup_loop heap endpos pos = siftup_loop ?h endpos ?c'"
      using True by (subst siftup_loop.simps) (simp add: Let_def)
    from "1.IH" [OF refl True refl refl] c' "1.prems"
    have ih: "snd (siftup_loop ?h endpos ?c') < length ?h \<and>
          mset ((fst (siftup_loop ?h endpos ?c'))[snd (siftup_loop ?h endpos ?c') := newitem])
            = mset (?h[?c' := newitem])"
      by simp
    have "mset (?h[?c' := newitem]) = mset (heap[pos := newitem])"
      using "1.prems"(1) c' by (rule mset_update_swap)
    with ih step show ?thesis by simp
  qed
qed

lemma mset_siftup: "pos < length heap \<Longrightarrow> mset (siftup heap pos) = mset heap"
  using siftup_loop_hole [of pos heap "length heap" "heap ! pos"]
  by (simp add: siftup_def Let_def split_def mset_siftdown)

lemma mset_heappush [simp]: "mset (heappush heap item) = add_mset item (mset heap)"
  by (simp add: heappush_def Let_def mset_siftdown)

lemma heappop_mset:
  "heap \<noteq> [] \<Longrightarrow>
   \<exists>item heap'. heappop heap = Inr (item, heap') \<and> add_mset item (mset heap') = mset heap"
proof (cases heap rule: rev_cases)
  case Nil
  assume "heap \<noteq> []"
  with Nil show ?thesis by simp
next
  case (snoc ys y)
  show ?thesis
  proof (cases "ys = []")
    case True
    with snoc show ?thesis by (simp add: heappop_def)
  next
    case False
    then have "mset (siftup (ys[0 := y]) 0) = mset (ys[0 := y])"
      by (intro mset_siftup) simp
    also have "\<dots> = add_mset y (mset ys - {#ys ! 0#})"
      using False by (simp add: mset_update)
    finally have "add_mset (ys ! 0) (mset (siftup (ys[0 := y]) 0)) = add_mset y (mset ys)"
      using False by (simp add: nth_mem_mset)
    with snoc False show ?thesis by (simp add: heappop_def Let_def)
  qed
qed

section \<open>The leaves of a tree and the code tables\<close>

lemma leaf_paths_prefix_free:
  "(p, c) \<in> set (leaf_paths t) \<Longrightarrow> (p @ q, d) \<in> set (leaf_paths t) \<Longrightarrow> q = [] \<and> c = d"
proof (induction t arbitrary: p rule: leaf_paths.induct)
  case 1
  then show ?case by simp
next
  case (2 c' f l r)
  then show ?case by simp
next
  case (3 f l r)
  from "3.prems"(1) consider
      (L) p' where "p = False # p'" "(p', c) \<in> set (leaf_paths l)"
    | (R) p' where "p = True # p'" "(p', c) \<in> set (leaf_paths r)"
    by auto
  then show ?case
  proof cases
    case L
    with "3.prems"(2) have "(p' @ q, d) \<in> set (leaf_paths l)" by auto
    with L(2) show ?thesis by (rule "3.IH"(1))
  next
    case R
    with "3.prems"(2) have "(p' @ q, d) \<in> set (leaf_paths r)" by auto
    with R(2) show ?thesis by (rule "3.IH"(2))
  qed
qed

lemma distinct_leaf_paths: "distinct (map fst (leaf_paths t))"
proof (induction t rule: leaf_paths.induct)
  case (3 f l r)
  have "distinct (map fst (map (\<lambda>(p, c). (False # p, c)) (leaf_paths l)))"
    using "3.IH"(1) by (simp add: distinct_map inj_on_def comp_def split_def)
  moreover have "distinct (map fst (map (\<lambda>(p, c). (True # p, c)) (leaf_paths r)))"
    using "3.IH"(2) by (simp add: distinct_map inj_on_def comp_def split_def)
  ultimately show ?case by auto
qed simp_all

lemma map_add_single:
  "m ++ (\<lambda>a. if a = k then Some v else None) = (\<lambda>a. if a = k then Some v else m a)"
  by (auto simp: map_add_def fun_eq_iff)

lemma build_codes_helper_tables:
  "build_codes_helper t pre self =
     self\<lparr>codes := codes self ++ map_of (rev (map (\<lambda>(p, c). (c, pre @ p)) (leaf_paths t))),
          reverse_mapping :=
            reverse_mapping self ++ map_of (rev (map (\<lambda>(p, c). (pre @ p, c)) (leaf_paths t)))\<rparr>"
proof (induction t pre self rule: build_codes_helper.induct)
  case (1 current_code self)
  show ?case by simp
next
  case (2 c f l r current_code self)
  show ?case by (simp add: fun_upd_def map_add_single)
next
  case (3 f l r current_code self)
  show ?case
    by (subst build_codes_helper.simps, subst "3.IH"(2))
       (simp add: "3.IH"(1) rev_map [symmetric] comp_def split_def)
qed

lemma leaf_paths_rev_map_of:
  "distinct (map fst xs) \<Longrightarrow> (k, v) \<in> set xs \<Longrightarrow> map_of (rev xs) k = Some v"
  by (rule map_of_is_SomeI) (simp_all add: rev_map [symmetric])

lemma build_codes_reverse_mapping:
  "(p, c) \<in> set (leaf_paths (Some root)) \<Longrightarrow>
   reverse_mapping (build_codes root self) p = Some c"
proof -
  assume m: "(p, c) \<in> set (leaf_paths (Some root))"
  have "distinct (map fst (map (\<lambda>(p, c). ([] @ p, c)) (leaf_paths (Some root))))"
    using distinct_leaf_paths [of "Some root"] by (simp add: comp_def split_def)
  moreover from m have "(p, c) \<in> set (map (\<lambda>(p, c). ([] @ p, c)) (leaf_paths (Some root)))"
    by force
  ultimately have "map_of (rev (map (\<lambda>(p, c). ([] @ p, c)) (leaf_paths (Some root)))) p = Some c"
    by (rule leaf_paths_rev_map_of)
  then show ?thesis
    by (simp add: build_codes_def build_codes_helper_tables map_add_Some_iff)
qed

lemma build_codes_codes:
  "distinct (map snd (leaf_paths (Some root))) \<Longrightarrow> (p, c) \<in> set (leaf_paths (Some root)) \<Longrightarrow>
   codes (build_codes root self) c = Some p"
proof -
  assume d: "distinct (map snd (leaf_paths (Some root)))"
    and m: "(p, c) \<in> set (leaf_paths (Some root))"
  have "distinct (map fst (map (\<lambda>(p, c). (c, [] @ p)) (leaf_paths (Some root))))"
    using d by (simp add: comp_def split_def)
  moreover from m have "(c, p) \<in> set (map (\<lambda>(p, c). (c, [] @ p)) (leaf_paths (Some root)))"
    by force
  ultimately have "map_of (rev (map (\<lambda>(p, c). (c, [] @ p)) (leaf_paths (Some root)))) c = Some p"
    by (rule leaf_paths_rev_map_of)
  then show ?thesis
    by (simp add: build_codes_def build_codes_helper_tables map_add_Some_iff)
qed

lemma build_codes_init_codes:
  "codes (build_codes root HuffmanEncoder_init) c = Some code \<Longrightarrow>
   (code, c) \<in> set (leaf_paths (Some root))"
proof -
  assume "codes (build_codes root HuffmanEncoder_init) c = Some code"
  then have "map_of (rev (map (\<lambda>(p, c). (c, [] @ p)) (leaf_paths (Some root)))) c = Some code"
    by (simp add: build_codes_def build_codes_helper_tables HuffmanEncoder_init_def)
  from map_of_SomeD [OF this] show ?thesis by auto
qed

lemma build_codes_init_reverse_mapping:
  "reverse_mapping (build_codes root HuffmanEncoder_init) p = Some c \<Longrightarrow>
   (p, c) \<in> set (leaf_paths (Some root))"
proof -
  assume "reverse_mapping (build_codes root HuffmanEncoder_init) p = Some c"
  then have "map_of (rev (map (\<lambda>(p, c). ([] @ p, c)) (leaf_paths (Some root)))) p = Some c"
    by (simp add: build_codes_def build_codes_helper_tables HuffmanEncoder_init_def)
  from map_of_SomeD [OF this] show ?thesis by auto
qed

section \<open>The tree builder keeps the characters\<close>

lemma build_heap_foldl:
  "mset (foldl (\<lambda>heap (char, freq). heappush heap (HuffmanNode (Some char) freq None None))
           acc frequency)
   = mset acc + mset (map (\<lambda>(c, f). HuffmanNode (Some c) f None None) frequency)"
  by (induction frequency arbitrary: acc) (auto simp: split_def)

lemma mset_build_heap:
  "mset (build_heap frequency) = mset (map (\<lambda>(c, f). HuffmanNode (Some c) f None None) frequency)"
  by (simp add: build_heap_def build_heap_foldl)

lemma length_build_heap [simp]: "length (build_heap frequency) = length frequency"
  using arg_cong [OF mset_build_heap [of frequency], of size] by simp

lemma forest_chars_build_heap: "forest_chars (build_heap frequency) = mset (map fst frequency)"
proof -
  have "forest_chars (build_heap frequency)
        = (\<Sum>n\<in>#mset (map (\<lambda>(c, f). HuffmanNode (Some c) f None None) frequency). node_chars n)"
    by (simp add: forest_chars_def mset_build_heap)
  also have "\<dots> = mset (map fst frequency)"
    by (induction frequency) (auto simp: node_chars_def)
  finally show ?thesis .
qed

lemma node_chars_merged:
  "node_chars (HuffmanNode None f (Some a) (Some b)) = node_chars a + node_chars b"
  by (simp add: node_chars_def comp_def split_def)

lemma forest_chars_add:
  "add_mset item (mset heap') = mset heap \<Longrightarrow>
   forest_chars heap = node_chars item + forest_chars heap'"
proof -
  assume a: "add_mset item (mset heap') = mset heap"
  have "forest_chars heap = (\<Sum>n\<in>#add_mset item (mset heap'). node_chars n)"
    by (simp only: forest_chars_def a)
  then show ?thesis by (simp add: forest_chars_def)
qed

lemma heappush_not_Nil [simp]: "heappush heap item \<noteq> []"
proof
  assume "heappush heap item = []"
  then have "length (heappush heap item) = length ([] :: HuffmanNode list)" by (rule arg_cong)
  then show False by simp
qed

lemma build_huffman_tree_chars:
  "heap \<noteq> [] \<Longrightarrow>
   \<exists>root. build_huffman_tree heap = Inr root \<and> node_chars root = forest_chars heap"
proof (induction heap rule: build_huffman_tree.induct)
  case (1 heap)
  show ?case
  proof (cases "length heap > 1")
    case False
    with "1.prems" obtain root where "heap = [root]"
      by (cases heap) auto
    then show ?thesis
      by (subst build_huffman_tree.simps) (simp add: forest_chars_def)
  next
    case True
    from heappop_mset [OF "1.prems"] obtain node1 heap1 where
      p1: "heappop heap = Inr (node1, heap1)" and m1: "add_mset node1 (mset heap1) = mset heap"
      by blast
    from length_heappop [OF p1] True have "heap1 \<noteq> []" by auto
    from heappop_mset [OF this] obtain node2 heap2 where
      p2: "heappop heap1 = Inr (node2, heap2)" and m2: "add_mset node2 (mset heap2) = mset heap1"
      by blast
    let ?merged = "HuffmanNode None (freq node1 + freq node2) (Some node1) (Some node2)"
    have "heappush heap2 ?merged \<noteq> []" by simp
    with "1.IH" [OF True p1 refl p2 refl refl] obtain root where
      r: "build_huffman_tree (heappush heap2 ?merged) = Inr root"
         "node_chars root = forest_chars (heappush heap2 ?merged)"
      by blast
    have "forest_chars (heappush heap2 ?merged) = node_chars ?merged + forest_chars heap2"
      by (rule forest_chars_add) simp
    also have "\<dots> = forest_chars heap"
      using forest_chars_add [OF m1] forest_chars_add [OF m2]
      by (simp add: node_chars_merged)
    finally have "node_chars root = forest_chars heap" using r(2) by simp
    moreover have "build_huffman_tree heap = Inr root"
      using True p1 p2 r(1) by (subst build_huffman_tree.simps) (simp add: Let_def)
    ultimately show ?thesis by blast
  qed
qed

lemma build_huffman_tree_empty: "build_huffman_tree [] = Inl IndexError"
  by (subst build_huffman_tree.simps) simp

section \<open>The frequency dict\<close>

lemma count_of_update:
  "count_of (AList.update x (count_of frequency x + 1) frequency) c
   = count_of frequency c + (if x = c then 1 else 0)"
  by (simp add: count_of_def update_conv')

lemma frequency_foldl:
  "distinct (map fst acc) \<Longrightarrow>
   distinct (map fst (foldl (\<lambda>frequency char.
        AList.update char ((case map_of frequency char of None \<Rightarrow> 0 | Some n \<Rightarrow> n) + 1)
          frequency) acc data)) \<and>
   fst ` set (foldl (\<lambda>frequency char.
        AList.update char ((case map_of frequency char of None \<Rightarrow> 0 | Some n \<Rightarrow> n) + 1)
          frequency) acc data) = fst ` set acc \<union> set data \<and>
   (\<forall>c. count_of (foldl (\<lambda>frequency char.
        AList.update char ((case map_of frequency char of None \<Rightarrow> 0 | Some n \<Rightarrow> n) + 1)
          frequency) acc data) c = count_of acc c + count_list data c)"
proof (induction data arbitrary: acc)
  case Nil
  then show ?case by simp
next
  case (Cons x data)
  let ?acc = "AList.update x ((case map_of acc x of None \<Rightarrow> 0 | Some n \<Rightarrow> n) + 1) acc"
  have d: "distinct (map fst ?acc)"
    using Cons.prems by (rule distinct_update)
  have k: "fst ` set ?acc = {x} \<union> fst ` set acc"
    by (rule dom_update)
  have c: "count_of ?acc c = count_of acc c + (if x = c then 1 else 0)" for c
    using count_of_update [of x acc c] by (simp add: count_of_def)
  from Cons.IH [OF d] k c show ?case by auto
qed

lemma distinct_build_frequency_dict: "distinct (map fst (build_frequency_dict data))"
  using frequency_foldl [of "[]" data] by (simp add: build_frequency_dict_def)

lemma keys_build_frequency_dict: "fst ` set (build_frequency_dict data) = set data"
  using frequency_foldl [of "[]" data] by (simp add: build_frequency_dict_def)

lemma count_of_build_frequency_dict:
  "count_of (build_frequency_dict data) c = count_list data c"
  using frequency_foldl [of "[]" data] by (simp add: build_frequency_dict_def count_of_def)

lemma build_frequency_dict_value:
  "(c, f) \<in> set (build_frequency_dict data) \<Longrightarrow> f = count_list data c"
proof -
  assume "(c, f) \<in> set (build_frequency_dict data)"
  with distinct_build_frequency_dict [of data]
  have "map_of (build_frequency_dict data) c = Some f" by (rule map_of_is_SomeI)
  then have "count_of (build_frequency_dict data) c = f" by (simp add: count_of_def)
  then show ?thesis by (simp add: count_of_build_frequency_dict)
qed

lemma length_build_frequency_dict: "length (build_frequency_dict data) = card (set data)"
proof -
  have "length (build_frequency_dict data) = length (map fst (build_frequency_dict data))"
    by simp
  also have "\<dots> = card (set (map fst (build_frequency_dict data)))"
    using distinct_build_frequency_dict [of data] by (rule distinct_card [symmetric])
  also have "\<dots> = card (set data)"
    using keys_build_frequency_dict [of data] by simp
  finally show ?thesis .
qed

lemma card_bytes_le: "card (A :: byte set) \<le> 256"
proof -
  have "card A \<le> card (UNIV :: byte set)" by (rule card_mono) simp_all
  then show ?thesis by (simp add: card_word)
qed

section \<open>Integers as bytes and the frequency records\<close>

lemma length_to_bytes_big [simp]: "length (to_bytes_big k n) = k"
  by (induction k arbitrary: n) simp_all

lemma from_bytes_snoc: "from_bytes (bs @ [b]) = 256 * from_bytes bs + unat b"
  by (simp add: from_bytes_def)

lemma from_bytes_to_bytes_big: "from_bytes (to_bytes_big k n) = n mod 256 ^ k"
proof (induction k arbitrary: n)
  case 0
  show ?case by (simp add: from_bytes_def)
next
  case (Suc k)
  have "unat (of_nat (n mod 256) :: byte) = n mod 256"
    by (simp add: unat_of_nat)
  then have "from_bytes (to_bytes_big (Suc k) n) = 256 * (n div 256 mod 256 ^ k) + n mod 256"
    by (simp add: from_bytes_snoc Suc.IH)
  also have "\<dots> = n mod 256 ^ Suc k"
    by (simp add: mod_mult2_eq)
  finally show ?case .
qed

lemma to_bytes_Inr:
  "to_bytes n k = Inr bs \<Longrightarrow> length bs = k \<and> from_bytes bs = n"
  by (auto simp: to_bytes_def from_bytes_to_bytes_big split: if_splits)

lemma update_fresh: "k \<notin> fst ` set al \<Longrightarrow> AList.update k v al = al @ [(k, v)]"
  by (induction al) auto

lemma foldl_update_distinct:
  "distinct (map fst (acc @ frequency)) \<Longrightarrow>
   foldl (\<lambda>a (c, f). AList.update c f a) acc frequency = acc @ frequency"
proof (induction frequency arbitrary: acc)
  case Nil
  show ?case by simp
next
  case (Cons p frequency)
  obtain c f where p: "p = (c, f)" by (cases p)
  from Cons.prems p have "c \<notin> fst ` set acc" by auto
  then have u: "AList.update c f acc = acc @ [(c, f)]" by (rule update_fresh)
  from Cons.prems p have "distinct (map fst ((acc @ [(c, f)]) @ frequency))" by simp
  from Cons.IH [OF this] u p show ?case by simp
qed

lemma read_frequency_write_frequency:
  "write_frequency frequency = Inr records \<Longrightarrow>
   read_frequency (length frequency) (records @ rest) acc
     = Inr (foldl (\<lambda>a (c, f). AList.update c f a) acc frequency, rest)"
proof (induction frequency arbitrary: records acc)
  case Nil
  then show ?case by simp
next
  case (Cons p frequency)
  obtain c f where p: "p = (c, f)" by (cases p)
  from Cons.prems p obtain fb out where
    fb: "to_bytes f 4 = Inr fb" and out: "write_frequency frequency = Inr out"
    and r: "records = c # fb @ out"
    by (auto split: sum.splits)
  from to_bytes_Inr [OF fb] have l: "length fb = 4" and v: "from_bytes fb = f" by simp_all
  from Cons.IH [OF out, of "AList.update c f acc"] p r l v
  show ?case by (simp add: Let_def)
qed

lemma write_frequency_ok:
  "\<forall>(c, f) \<in> set frequency. f < 2 ^ 32 \<Longrightarrow>
   \<exists>records. write_frequency frequency = Inr records \<and> length records = 5 * length frequency"
proof (induction frequency)
  case Nil
  show ?case by simp
next
  case (Cons p frequency)
  obtain c f where p: "p = (c, f)" by (cases p)
  from Cons.prems p have "f < 2 ^ 32" by simp
  then have t: "to_bytes f 4 = Inr (to_bytes_big 4 f)" by (simp add: to_bytes_def)
  from Cons obtain out where "write_frequency frequency = Inr out"
    "length out = 5 * length frequency" by auto
  with p t show ?case by simp
qed

lemma write_frequency_length:
  "write_frequency frequency = Inr records \<Longrightarrow> length records = 5 * length frequency"
proof (induction frequency arbitrary: records)
  case Nil
  then show ?case by simp
next
  case (Cons p frequency)
  obtain c f where p: "p = (c, f)" by (cases p)
  from Cons.prems p obtain fb out where
    fb: "to_bytes f 4 = Inr fb" and out: "write_frequency frequency = Inr out"
    and r: "records = c # fb @ out"
    by (auto split: sum.splits)
  from to_bytes_Inr [OF fb] Cons.IH [OF out] r show ?case by simp
qed

lemma read_header_container:
  assumes d: "distinct (map fst frequency)"
    and s: "to_bytes (length frequency) 2 = Inr size_bytes"
    and w: "write_frequency frequency = Inr records"
  shows "read_header (size_bytes @ records @ packed) = Inr (frequency, packed)"
proof -
  from to_bytes_Inr [OF s] have l: "length size_bytes = 2"
    and v: "from_bytes size_bytes = length frequency" by simp_all
  from d have "foldl (\<lambda>a (c, f). AList.update c f a) [] frequency = [] @ frequency"
    by (intro foldl_update_distinct) simp
  with read_frequency_write_frequency [OF w, of packed "[]"] l v
  show ?thesis by (simp add: read_header_def)
qed

section \<open>Decoding what was encoded\<close>

lemma decode_text_loop_code:
  "rm (cur @ w) = Some c \<Longrightarrow> w \<noteq> [] \<Longrightarrow>
   (\<And>v. strict_prefix v w \<Longrightarrow> v \<noteq> [] \<Longrightarrow> rm (cur @ v) = None) \<Longrightarrow>
   decode_text_loop rm (w @ rest) cur out = decode_text_loop rm rest [] (out @ [c])"
proof (induction w arbitrary: cur)
  case Nil
  then show ?case by simp
next
  case (Cons b w)
  show ?case
  proof (cases "w = []")
    case True
    with Cons.prems(1) show ?thesis by simp
  next
    case False
    then have "strict_prefix [b] (b # w)" by (simp add: strict_prefix_def)
    then have n: "rm (cur @ [b]) = None" by (rule Cons.prems(3)) simp
    have "decode_text_loop rm (w @ rest) (cur @ [b]) out
          = decode_text_loop rm rest [] (out @ [c])"
    proof (rule Cons.IH)
      show "rm ((cur @ [b]) @ w) = Some c" using Cons.prems(1) by simp
      show "w \<noteq> []" by (rule False)
      fix v
      assume "strict_prefix v w" "v \<noteq> []"
      then have "strict_prefix (b # v) (b # w)" by (simp add: strict_prefix_def)
      then have "rm (cur @ b # v) = None" by (rule Cons.prems(3)) simp
      then show "rm ((cur @ [b]) @ v) = None" by simp
    qed
    with n show ?thesis by simp
  qed
qed

lemma get_encoded_text_loop_concat:
  "(\<And>c. c \<in> set data \<Longrightarrow> cs c \<noteq> None) \<Longrightarrow>
   get_encoded_text_loop cs data acc = Inr (acc @ concat (map (\<lambda>c. the (cs c)) data))"
proof (induction data arbitrary: acc)
  case Nil
  show ?case by simp
next
  case (Cons x data)
  from Cons.prems [of x] obtain code where x: "cs x = Some code" by auto
  have "get_encoded_text_loop cs data (acc @ code)
        = Inr ((acc @ code) @ concat (map (\<lambda>c. the (cs c)) data))"
    by (rule Cons.IH) (simp add: Cons.prems)
  with x show ?case by simp
qed

lemma decode_text_loop_concat:
  assumes pf: "\<And>p q. rm p \<noteq> None \<Longrightarrow> rm (p @ q) \<noteq> None \<Longrightarrow> q = []"
    and cs: "\<And>c. c \<in> set data \<Longrightarrow> \<exists>code. cs c = Some code \<and> code \<noteq> [] \<and> rm code = Some c"
  shows "decode_text_loop rm (concat (map (\<lambda>c. the (cs c)) data) @ rest) [] out
         = decode_text_loop rm rest [] (out @ data)"
  using cs
proof (induction data arbitrary: out)
  case Nil
  show ?case by simp
next
  case (Cons x data)
  from Cons.prems [of x] obtain code where
    x: "cs x = Some code" "code \<noteq> []" "rm code = Some x" by auto
  have "decode_text_loop rm (code @ (concat (map (\<lambda>c. the (cs c)) data) @ rest)) [] out
        = decode_text_loop rm (concat (map (\<lambda>c. the (cs c)) data) @ rest) [] (out @ [x])"
  proof (rule decode_text_loop_code)
    show "rm ([] @ code) = Some x" using x(3) by simp
    show "code \<noteq> []" by (rule x(2))
    fix v
    assume v: "strict_prefix v code" "v \<noteq> []"
    then obtain q where q: "code = v @ q" "q \<noteq> []"
      by (auto simp: strict_prefix_def prefix_def)
    show "rm ([] @ v) = None"
    proof (rule ccontr)
      assume "rm ([] @ v) \<noteq> None"
      then have "rm v \<noteq> None" by simp
      moreover have "rm (v @ q) \<noteq> None" using x(3) q(1) by simp
      ultimately have "q = []" by (rule pf)
      with q(2) show False by simp
    qed
  qed
  also have "\<dots> = decode_text_loop rm rest [] ((out @ [x]) @ data)"
    by (rule Cons.IH) (simp add: Cons.prems)
  finally show ?case using x(1) by simp
qed

section \<open>The stages of compress and decompress\<close>

lemma build_heap_nonempty: "frequency \<noteq> [] \<Longrightarrow> build_heap frequency \<noteq> []"
  by (metis length_build_heap length_0_conv)

lemma tree_of_frequency:
  assumes "frequency \<noteq> []"
  obtains root where "build_huffman_tree (build_heap frequency) = Inr root"
    and "mset (map snd (leaf_paths (Some root))) = mset (map fst frequency)"
proof -
  from assms have "build_heap frequency \<noteq> []" by (rule build_heap_nonempty)
  from build_huffman_tree_chars [OF this] obtain root where
    "build_huffman_tree (build_heap frequency) = Inr root"
    "node_chars root = forest_chars (build_heap frequency)" by blast
  then show ?thesis
    using that by (simp add: node_chars_def forest_chars_build_heap)
qed

lemma leaf_paths_nonempty_code:
  "2 \<le> length (leaf_paths (Some root)) \<Longrightarrow> (p, c) \<in> set (leaf_paths (Some root)) \<Longrightarrow> p \<noteq> []"
proof (cases root)
  case (HuffmanNode ch f l r)
  assume "2 \<le> length (leaf_paths (Some root))" and "(p, c) \<in> set (leaf_paths (Some root))"
  with HuffmanNode show ?thesis by (cases ch) auto
qed

lemma build_frequency_dict_nonempty: "data \<noteq> [] \<Longrightarrow> build_frequency_dict data \<noteq> []"
  using keys_build_frequency_dict [of data] by auto

lemma get_byte_array_bits: "get_byte_array s = Inr b \<Longrightarrow> concat (map byte_bits b) = s"
proof -
  assume a: "get_byte_array s = Inr b"
  then have m: "length s mod 8 = 0" and l: "get_byte_array_loop s = Inr b"
    by (auto simp: get_byte_array_def split: if_splits)
  from m have "length s = 8 * (length s div 8)"
    by (simp add: dvd_mult_div_cancel mod_eq_0_iff_dvd)
  from get_byte_array_loop_ok [OF this] l show ?thesis by auto
qed

lemma compress_stages:
  "compress self data = Inr container \<Longrightarrow>
   \<exists>root encoded_text byte_array size_bytes records.
     build_huffman_tree (build_heap (build_frequency_dict data)) = Inr root \<and>
     get_encoded_text (build_codes root self) data = Inr encoded_text \<and>
     get_byte_array (pad_encoded_text encoded_text) = Inr byte_array \<and>
     to_bytes (length (build_frequency_dict data)) 2 = Inr size_bytes \<and>
     write_frequency (build_frequency_dict data) = Inr records \<and>
     container = size_bytes @ records @ byte_array"
  by (simp add: compress_def Let_def split: sum.splits)

lemma compress_from_stages:
  "build_huffman_tree (build_heap (build_frequency_dict data)) = Inr root \<Longrightarrow>
   get_encoded_text (build_codes root self) data = Inr encoded_text \<Longrightarrow>
   get_byte_array (pad_encoded_text encoded_text) = Inr byte_array \<Longrightarrow>
   to_bytes (length (build_frequency_dict data)) 2 = Inr size_bytes \<Longrightarrow>
   write_frequency (build_frequency_dict data) = Inr records \<Longrightarrow>
   compress self data = Inr (size_bytes @ records @ byte_array)"
  by (simp add: compress_def Let_def)

lemma decompress_from_stages:
  "read_header file = Inr (frequency, rest) \<Longrightarrow>
   build_huffman_tree (build_heap frequency) = Inr root \<Longrightarrow>
   remove_padding (concat (map byte_bits rest)) = Inr encoded_text \<Longrightarrow>
   decompress file
     = Inr (decode_text (reverse_mapping (build_codes root HuffmanEncoder_init)) encoded_text)"
  by (simp add: decompress_def Let_def)

lemma tree_codes:
  assumes t: "build_huffman_tree (build_heap (build_frequency_dict data)) = Inr root"
    and c: "c \<in> set data"
  obtains p where "(p, c) \<in> set (leaf_paths (Some root))"
    and "codes (build_codes root self) c = Some p"
    and "2 \<le> card (set data) \<Longrightarrow> p \<noteq> []"
proof -
  let ?f = "build_frequency_dict data"
  from c have "data \<noteq> []" by auto
  then have ne: "?f \<noteq> []" by (rule build_frequency_dict_nonempty)
  from tree_of_frequency [OF ne] t
  have m: "mset (map snd (leaf_paths (Some root))) = mset (map fst ?f)" by auto
  from m have d: "distinct (map snd (leaf_paths (Some root)))"
    using distinct_build_frequency_dict [of data] by (metis mset_eq_imp_distinct_iff)
  from m have "set (map snd (leaf_paths (Some root))) = set (map fst ?f)"
    by (rule mset_eq_setD)
  with c keys_build_frequency_dict [of data] obtain p where
    p: "(p, c) \<in> set (leaf_paths (Some root))" by force
  from m have "length (leaf_paths (Some root)) = length ?f"
    using mset_eq_length [OF m] by simp
  then have "2 \<le> card (set data) \<Longrightarrow> p \<noteq> []"
    using leaf_paths_nonempty_code [OF _ p] by (simp add: length_build_frequency_dict)
  with p build_codes_codes [OF d p] show ?thesis using that by blast
qed

lemma compress_ok:
  assumes ne: "data \<noteq> []" and small: "\<forall>c. count_list data c < 2 ^ 32"
  shows "\<exists>container. compress self data = Inr container"
proof -
  let ?f = "build_frequency_dict data"
  from ne have "?f \<noteq> []" by (rule build_frequency_dict_nonempty)
  from tree_of_frequency [OF this] obtain root where
    t: "build_huffman_tree (build_heap ?f) = Inr root" by blast
  have "codes (build_codes root self) c \<noteq> None" if "c \<in> set data" for c
    using tree_codes [OF t that, of self] by auto
  then have e: "get_encoded_text (build_codes root self) data
       = Inr ([] @ concat (map (\<lambda>c. the (codes (build_codes root self) c)) data))"
    unfolding get_encoded_text_def by (rule get_encoded_text_loop_concat)
  let ?e = "concat (map (\<lambda>c. the (codes (build_codes root self) c)) data)"
  from get_byte_array_pad [of ?e] obtain b where
    b: "get_byte_array (pad_encoded_text ?e) = Inr (of_nat (extra_padding ?e) # b)" by blast
  have "length ?f \<le> 256"
    using card_bytes_le [of "set data"] by (simp add: length_build_frequency_dict)
  then have s: "to_bytes (length ?f) 2 = Inr (to_bytes_big 2 (length ?f))"
    by (simp add: to_bytes_def)
  have "\<forall>(c, f) \<in> set ?f. f < 2 ^ 32"
    using small build_frequency_dict_value [of _ _ data] by auto
  from write_frequency_ok [OF this] obtain records where
    w: "write_frequency ?f = Inr records" by blast
  from compress_from_stages [OF t _ b s w] e show ?thesis by simp
qed

lemma decompress_compress:
  assumes c: "compress self data = Inr container" and two: "2 \<le> card (set data)"
  shows "decompress container = Inr data"
proof -
  let ?f = "build_frequency_dict data"
  from compress_stages [OF c] obtain root encoded_text byte_array size_bytes records where
    t: "build_huffman_tree (build_heap ?f) = Inr root"
    and e: "get_encoded_text (build_codes root self) data = Inr encoded_text"
    and g: "get_byte_array (pad_encoded_text encoded_text) = Inr byte_array"
    and s: "to_bytes (length ?f) 2 = Inr size_bytes"
    and w: "write_frequency ?f = Inr records"
    and k: "container = size_bytes @ records @ byte_array"
    by blast
  let ?rm = "reverse_mapping (build_codes root HuffmanEncoder_init)"
  let ?cs = "codes (build_codes root self)"
  have h: "read_header container = Inr (?f, byte_array)"
    unfolding k using distinct_build_frequency_dict s w by (rule read_header_container)
  have "concat (map byte_bits byte_array) = pad_encoded_text encoded_text"
    using g by (rule get_byte_array_bits)
  then have r: "remove_padding (concat (map byte_bits byte_array)) = Inr encoded_text"
    by (simp add: remove_padding_pad)
  have "?cs c \<noteq> None" if "c \<in> set data" for c
    using tree_codes [OF t that, of self] by auto
  then have "get_encoded_text_loop ?cs data [] = Inr ([] @ concat (map (\<lambda>c. the (?cs c)) data))"
    by (rule get_encoded_text_loop_concat)
  with e have enc: "encoded_text = concat (map (\<lambda>c. the (?cs c)) data)"
    by (simp add: get_encoded_text_def)
  have "decode_text_loop ?rm (concat (map (\<lambda>c. the (?cs c)) data) @ []) [] []
        = decode_text_loop ?rm [] [] ([] @ data)"
  proof (rule decode_text_loop_concat)
    fix p q
    assume "?rm p \<noteq> None" "?rm (p @ q) \<noteq> None"
    then obtain a b where "?rm p = Some a" "?rm (p @ q) = Some b" by auto
    then have "(p, a) \<in> set (leaf_paths (Some root))" "(p @ q, b) \<in> set (leaf_paths (Some root))"
      by (auto dest: build_codes_init_reverse_mapping)
    then show "q = []" using leaf_paths_prefix_free by blast
  next
    fix c
    assume "c \<in> set data"
    from tree_codes [OF t this, of self] two obtain p where
      "(p, c) \<in> set (leaf_paths (Some root))" "?cs c = Some p" "p \<noteq> []" by auto
    then show "\<exists>code. ?cs c = Some code \<and> code \<noteq> [] \<and> ?rm code = Some c"
      using build_codes_reverse_mapping [of p c root HuffmanEncoder_init] by auto
  qed
  then have "decode_text ?rm encoded_text = data"
    by (simp add: decode_text_def enc)
  with decompress_from_stages [OF h t r] show ?thesis by simp
qed

section \<open>Frequencies that do not fit in four bytes\<close>

lemma write_frequency_overflow:
  "(c, f) \<in> set frequency \<Longrightarrow> 2 ^ 32 \<le> f \<Longrightarrow> write_frequency frequency = Inl OverflowError"
proof (induction frequency)
  case Nil
  then show ?case by simp
next
  case (Cons p frequency)
  obtain c' f' where p: "p = (c', f')" by (cases p)
  show ?case
  proof (cases "f' < 2 ^ 32")
    case False
    with p show ?thesis by (simp add: to_bytes_def)
  next
    case True
    with Cons.prems p have "(c, f) \<in> set frequency" by auto
    then have "write_frequency frequency = Inl OverflowError"
      using Cons.prems(2) by (rule Cons.IH)
    with p True show ?thesis by (simp add: to_bytes_def)
  qed
qed

lemma count_list_replicate_same [simp]: "count_list (replicate n x) x = n"
  by (induction n) simp_all

lemma compress_overflow:
  assumes big: "2 ^ 32 \<le> count_list data c"
  shows "compress self data = Inl OverflowError"
proof -
  let ?f = "build_frequency_dict data"
  have c: "c \<in> set data"
  proof (rule ccontr)
    assume "c \<notin> set data"
    then have "count_list data c = 0" by simp
    with big show False by simp
  qed
  then have ne: "data \<noteq> []" by auto
  then have "?f \<noteq> []" by (rule build_frequency_dict_nonempty)
  from tree_of_frequency [OF this] obtain root where
    t: "build_huffman_tree (build_heap ?f) = Inr root" by blast
  have "codes (build_codes root self) c \<noteq> None" if "c \<in> set data" for c
    using tree_codes [OF t that, of self] by auto
  then have e: "get_encoded_text (build_codes root self) data
       = Inr ([] @ concat (map (\<lambda>c. the (codes (build_codes root self) c)) data))"
    unfolding get_encoded_text_def by (rule get_encoded_text_loop_concat)
  let ?e = "concat (map (\<lambda>c. the (codes (build_codes root self) c)) data)"
  from get_byte_array_pad [of ?e] obtain b where
    b: "get_byte_array (pad_encoded_text ?e) = Inr (of_nat (extra_padding ?e) # b)" by blast
  have "length ?f \<le> 256"
    using card_bytes_le [of "set data"] by (simp add: length_build_frequency_dict)
  then have s: "to_bytes (length ?f) 2 = Inr (to_bytes_big 2 (length ?f))"
    by (simp add: to_bytes_def)
  from c keys_build_frequency_dict [of data] obtain f where f: "(c, f) \<in> set ?f" by force
  with big have "2 ^ 32 \<le> f" using build_frequency_dict_value [OF f] by simp
  with f have w: "write_frequency ?f = Inl OverflowError" by (rule write_frequency_overflow)
  from t e b s w show ?thesis by (simp add: compress_def Let_def)
qed

section \<open>Round trip\<close>

text \<open>
  C9 as the specification states it: for every byte sequence with at least two distinct
  byte values, decompressing what compress wrote returns the sequence. It fails on a
  sequence in which one byte value occurs \<open>2^32\<close> times or more: the frequency does
  not fit in the four bytes of its record, \<open>freq.to_bytes(4, byteorder='big')\<close>
  raises OverflowError and compress writes no container.
\<close>

theorem roundtrip_overflow_counterexample:
  "2 \<le> card (set (replicate (2 ^ 32) (0 :: byte) @ [1])) \<and>
   roundtrip (replicate (2 ^ 32) 0 @ [1]) = Inl OverflowError"
proof -
  have "count_list (replicate (2 ^ 32) (0 :: byte) @ [1]) 0 = 2 ^ 32" by simp
  then have "2 ^ 32 \<le> count_list (replicate (2 ^ 32) (0 :: byte) @ [1]) 0" by simp
  then have "compress HuffmanEncoder_init (replicate (2 ^ 32) 0 @ [1]) = Inl OverflowError"
    by (rule compress_overflow)
  then have "roundtrip (replicate (2 ^ 32) 0 @ [1]) = Inl OverflowError"
    by (simp add: roundtrip_def)
  moreover have "set (replicate (2 ^ 32) (0 :: byte) @ [1]) = {0, 1}"
    by (auto simp: set_replicate_conv_if)
  ultimately show ?thesis by simp
qed

text \<open>
  C9, amended: for every byte sequence with at least two distinct byte values in which
  every byte value occurs fewer than \<open>2^32\<close> times, compress writes a container and
  decompressing that container returns exactly the sequence.
\<close>

theorem roundtrip_two_symbols:
  assumes "2 \<le> card (set data)" and "\<forall>c. count_list data c < 2 ^ 32"
  shows "roundtrip data = Inr data"
proof -
  from assms(1) have "data \<noteq> []" by auto
  from compress_ok [OF this assms(2)] obtain container where
    c: "compress HuffmanEncoder_init data = Inr container" by blast
  from decompress_compress [OF c assms(1)] c show ?thesis
    by (simp add: roundtrip_def)
qed

theorem roundtrip_two_symbols_witness:
  "2 \<le> card (set [97, 98 :: byte]) \<and> (\<forall>c. count_list [97, 98 :: byte] c < 2 ^ 32) \<and>
   roundtrip [97, 98] = Inr [97, 98]"
proof -
  have a: "2 \<le> card (set [97, 98 :: byte])" by simp
  have b: "\<forall>c. count_list [97, 98 :: byte] c < 2 ^ 32" by simp
  from roundtrip_two_symbols [OF a b] a b show ?thesis by blast
qed

section \<open>A run on eight bytes\<close>

lemma build_huffman_tree_step:
  "length heap > 1 \<Longrightarrow> heappop heap = Inr (node1, heap1) \<Longrightarrow>
   heappop heap1 = Inr (node2, heap2) \<Longrightarrow>
   build_huffman_tree heap =
     build_huffman_tree
       (heappush heap2 (HuffmanNode None (freq node1 + freq node2) (Some node1) (Some node2)))"
  by (subst build_huffman_tree.simps) (simp add: Let_def)

lemma build_huffman_tree_single: "build_huffman_tree [root] = Inr root"
  by (subst build_huffman_tree.simps) simp

lemma example_frequency:
  "build_frequency_dict [97, 97, 98, 99, 97, 98, 98, 99] = [(97, 3), (98, 3), (99, 2)]"
  by (simp add: build_frequency_dict_def)

lemma example_tree:
  "build_huffman_tree (build_heap [(97, 3), (98, 3), (99, 2)]) =
     Inr (HuffmanNode None 8 (Some (HuffmanNode (Some 97) 3 None None))
            (Some (HuffmanNode None 5 (Some (HuffmanNode (Some 99) 2 None None))
                                      (Some (HuffmanNode (Some 98) 3 None None)))))"
proof -
  let ?a = "HuffmanNode (Some 97) 3 None None"
  let ?b = "HuffmanNode (Some 98) 3 None None"
  let ?c = "HuffmanNode (Some 99) 2 None None"
  let ?m = "HuffmanNode None 5 (Some ?c) (Some ?b)"
  let ?r = "HuffmanNode None 8 (Some ?a) (Some ?m)"
  have h: "build_heap [(97, 3), (98, 3), (99, 2)] = [?c, ?b, ?a]" by code_simp
  have p1: "heappop [?c, ?b, ?a] = Inr (?c, [?b, ?a])" by code_simp
  have p2: "heappop [?b, ?a] = Inr (?b, [?a])" by code_simp
  have u1: "heappush [?a] ?m = [?a, ?m]" by code_simp
  have p3: "heappop [?a, ?m] = Inr (?a, [?m])" by code_simp
  have p4: "heappop [?m] = Inr (?m, [])" by code_simp
  have u2: "heappush [] ?r = [?r]" by code_simp
  have "build_huffman_tree [?c, ?b, ?a] = build_huffman_tree [?a, ?m]"
    using build_huffman_tree_step [OF _ p1 p2] by (simp add: u1)
  also have "\<dots> = build_huffman_tree [?r]"
    using build_huffman_tree_step [OF _ p3 p4] by (simp add: u2)
  finally show ?thesis by (simp add: h build_huffman_tree_single)
qed

lemma example_codes:
  "codes (build_codes
     (HuffmanNode None 8 (Some (HuffmanNode (Some 97) 3 None None))
        (Some (HuffmanNode None 5 (Some (HuffmanNode (Some 99) 2 None None))
                                  (Some (HuffmanNode (Some 98) 3 None None)))))
     HuffmanEncoder_init)
   = [97 \<mapsto> [False], 99 \<mapsto> [True, False], 98 \<mapsto> [True, True]]"
  by (simp add: build_codes_def HuffmanEncoder_init_def)

lemma example_reverse_mapping:
  "reverse_mapping (build_codes
     (HuffmanNode None 8 (Some (HuffmanNode (Some 97) 3 None None))
        (Some (HuffmanNode None 5 (Some (HuffmanNode (Some 99) 2 None None))
                                  (Some (HuffmanNode (Some 98) 3 None None)))))
     HuffmanEncoder_init)
   = [[False] \<mapsto> 97, [True, False] \<mapsto> 99, [True, True] \<mapsto> 98]"
  by (simp add: build_codes_def HuffmanEncoder_init_def)

lemma to_bytes_big_2:
  "to_bytes_big 2 n = [of_nat (n div 256 mod 256), of_nat (n mod 256)]"
proof -
  have two: "(2::nat) = Suc (Suc 0)" by simp
  show ?thesis unfolding two by simp
qed

lemma to_bytes_big_4:
  "to_bytes_big 4 n =
     [of_nat (n div 256 div 256 div 256 mod 256), of_nat (n div 256 div 256 mod 256),
      of_nat (n div 256 mod 256), of_nat (n mod 256)]"
proof -
  have four: "(4::nat) = Suc (Suc (Suc (Suc 0)))" by simp
  show ?thesis unfolding four by simp
qed

lemma to_bytes_3_2: "to_bytes 3 2 = Inr [0, 3]"
  by (simp add: to_bytes_def to_bytes_big_2)

lemma to_bytes_3_4: "to_bytes 3 4 = Inr [0, 0, 0, 3]"
  by (simp add: to_bytes_def to_bytes_big_4)

lemma to_bytes_2_4: "to_bytes 2 4 = Inr [0, 0, 0, 2]"
  by (simp add: to_bytes_def to_bytes_big_4)

lemma example_size:
  "to_bytes (length [(97 :: byte, 3 :: nat), (98, 3), (99, 2)]) 2 = Inr [0, 3]"
proof -
  have "length [(97 :: byte, 3 :: nat), (98, 3), (99, 2)] = 3" by simp
  then show ?thesis by (simp only: to_bytes_3_2)
qed

lemma example_records:
  "write_frequency [(97, 3), (98, 3), (99, 2)]
   = Inr [97, 0, 0, 0, 3, 98, 0, 0, 0, 3, 99, 0, 0, 0, 2]"
  by (simp add: to_bytes_3_4 to_bytes_2_4)

lemma example_encoded_text:
  "get_encoded_text_loop [97 \<mapsto> [False], 99 \<mapsto> [True, False], 98 \<mapsto> [True, True]]
     [97, 97, 98, 99, 97, 98, 98, 99] []
   = Inr [False, False, True, True, True, False, False, True, True, True, True, True, False]"
  by simp

lemma example_packed:
  "get_byte_array (pad_encoded_text
     [False, False, True, True, True, False, False, True, True, True, True, True, False])
   = Inr [3, 57, 240]"
  by code_simp

lemma example_compress:
  "compress HuffmanEncoder_init [97, 97, 98, 99, 97, 98, 98, 99] =
     Inr [0, 3, 97, 0, 0, 0, 3, 98, 0, 0, 0, 3, 99, 0, 0, 0, 2, 3, 57, 240]"
proof -
  let ?d = "[97, 97, 98, 99, 97, 98, 98, 99] :: byte list"
  let ?r = "HuffmanNode None 8 (Some (HuffmanNode (Some 97) 3 None None))
        (Some (HuffmanNode None 5 (Some (HuffmanNode (Some 99) 2 None None))
                                  (Some (HuffmanNode (Some 98) 3 None None))))"
  have t: "build_huffman_tree (build_heap (build_frequency_dict ?d)) = Inr ?r"
    by (simp only: example_frequency example_tree)
  have e: "get_encoded_text (build_codes ?r HuffmanEncoder_init) ?d
    = Inr [False, False, True, True, True, False, False, True, True, True, True, True, False]"
    by (simp only: get_encoded_text_def example_codes example_encoded_text)
  have s: "to_bytes (length (build_frequency_dict ?d)) 2 = Inr [0, 3]"
    by (simp only: example_frequency example_size)
  have w: "write_frequency (build_frequency_dict ?d)
           = Inr [97, 0, 0, 0, 3, 98, 0, 0, 0, 3, 99, 0, 0, 0, 2]"
    by (simp only: example_frequency example_records)
  from compress_from_stages [OF t e example_packed s w] show ?thesis by simp
qed

lemma example_truncated_header:
  "read_header [0, 3, 97, 0, 0, 0, 3, 98, 0, 0, 0, 3, 99, 0, 0, 0, 2, 3, 57]
   = Inr ([(97, 3), (98, 3), (99, 2)], [3, 57])"
proof -
  have "distinct (map fst [(97 :: byte, 3 :: nat), (98, 3), (99, 2)])" by simp
  from read_header_container [OF this example_size example_records, of "[3, 57]"]
  show ?thesis by simp
qed

lemma example_truncated_bits:
  "remove_padding (concat (map byte_bits [3, 57])) = Inr [False, False, True, True, True]"
  by code_simp

lemma example_truncated_decode:
  "decode_text [[False] \<mapsto> 97, [True, False] \<mapsto> 99, [True, True] \<mapsto> 98]
     [False, False, True, True, True] = [97, 97, 98]"
  by (simp add: decode_text_def)

lemma example_decompress_truncated:
  "decompress [0, 3, 97, 0, 0, 0, 3, 98, 0, 0, 0, 3, 99, 0, 0, 0, 2, 3, 57] = Inr [97, 97, 98]"
  using decompress_from_stages [OF example_truncated_header example_tree example_truncated_bits]
  by (simp only: example_reverse_mapping example_truncated_decode)

section \<open>Claims about the code table\<close>

text \<open>
  C6: in the code table generated from the tree built over a non-empty frequency table,
  the code of a symbol is never a proper prefix of the code of another symbol (nor equal
  to it).
\<close>

theorem build_codes_prefix_free:
  assumes "frequency \<noteq> []"
    and "build_huffman_tree (build_heap frequency) = Inr root"
    and "codes (build_codes root HuffmanEncoder_init) a = Some ca"
    and "codes (build_codes root HuffmanEncoder_init) b = Some cb"
    and "a \<noteq> b"
  shows "\<not> strict_prefix ca cb \<and> ca \<noteq> cb"
proof -
  from assms(3) have a: "(ca, a) \<in> set (leaf_paths (Some root))"
    by (rule build_codes_init_codes)
  from assms(4) have b: "(cb, b) \<in> set (leaf_paths (Some root))"
    by (rule build_codes_init_codes)
  have "\<not> prefix ca cb"
  proof
    assume "prefix ca cb"
    then obtain q where "cb = ca @ q" by (auto simp: prefix_def)
    with a b have "q = [] \<and> a = b" using leaf_paths_prefix_free by blast
    with assms(5) show False by simp
  qed
  then show ?thesis by (auto simp: strict_prefix_def)
qed

theorem build_codes_prefix_free_witness:
  "[(97 :: byte, 3 :: nat), (98, 3), (99, 2)] \<noteq> [] \<and>
   codes (build_codes
     (HuffmanNode None 8 (Some (HuffmanNode (Some 97) 3 None None))
        (Some (HuffmanNode None 5 (Some (HuffmanNode (Some 99) 2 None None))
                                  (Some (HuffmanNode (Some 98) 3 None None)))))
     HuffmanEncoder_init) 99 = Some [True, False] \<and>
   codes (build_codes
     (HuffmanNode None 8 (Some (HuffmanNode (Some 97) 3 None None))
        (Some (HuffmanNode None 5 (Some (HuffmanNode (Some 99) 2 None None))
                                  (Some (HuffmanNode (Some 98) 3 None None)))))
     HuffmanEncoder_init) 98 = Some [True, True] \<and>
   \<not> strict_prefix [True, False] [True, True :: bool]"
proof -
  let ?r = "HuffmanNode None 8 (Some (HuffmanNode (Some 97) 3 None None))
        (Some (HuffmanNode None 5 (Some (HuffmanNode (Some 99) 2 None None))
                                  (Some (HuffmanNode (Some 98) 3 None None))))"
  have n: "[(97 :: byte, 3 :: nat), (98, 3), (99, 2)] \<noteq> []" by simp
  have a: "codes (build_codes ?r HuffmanEncoder_init) 99 = Some [True, False]"
    by (simp add: example_codes)
  have b: "codes (build_codes ?r HuffmanEncoder_init) 98 = Some [True, True]"
    by (simp add: example_codes)
  have d: "(99 :: byte) \<noteq> 98" by simp
  from build_codes_prefix_free [OF n example_tree a b d] a b show ?thesis by simp
qed

lemma single_symbol_tree:
  "build_huffman_tree (build_heap [(97, 2)]) = Inr (HuffmanNode (Some 97) 2 None None)"
proof -
  have "build_heap [(97, 2)] = [HuffmanNode (Some 97) 2 None None]" by code_simp
  then show ?thesis by (simp add: build_huffman_tree_single)
qed

text \<open>
  C2 says that every code has at least one bit, also when the frequency table has a
  single symbol. The code does not do that: with one symbol the heap holds one leaf,
  the loop of \<open>build_huffman_tree\<close> does not run, the leaf itself is the root, and
  \<open>build_codes_helper\<close> records the empty path as its code.
\<close>

theorem single_symbol_code_empty:
  "build_huffman_tree (build_heap [(97, 2)]) = Inr (HuffmanNode (Some 97) 2 None None) \<and>
   codes (build_codes (HuffmanNode (Some 97) 2 None None) HuffmanEncoder_init) 97 = Some []"
  by (simp add: single_symbol_tree build_codes_def)

section \<open>Round trip of a single repeated byte and of the empty input\<close>

lemma single_symbol_compress:
  "compress HuffmanEncoder_init [97, 97] = Inr [0, 1, 97, 0, 0, 0, 2, 8, 0]"
proof -
  let ?d = "[97, 97] :: byte list"
  let ?r = "HuffmanNode (Some 97) 2 None None"
  have f: "build_frequency_dict ?d = [(97, 2)]" by (simp add: build_frequency_dict_def)
  have t: "build_huffman_tree (build_heap (build_frequency_dict ?d)) = Inr ?r"
    by (simp only: f single_symbol_tree)
  have e: "get_encoded_text (build_codes ?r HuffmanEncoder_init) ?d = Inr []"
    by (simp add: get_encoded_text_def build_codes_def)
  have b: "get_byte_array (pad_encoded_text []) = Inr [8, 0]" by code_simp
  have "to_bytes (Suc 0) 2 = Inr [0, 1]" by (simp add: to_bytes_def to_bytes_big_2)
  then have s: "to_bytes (length (build_frequency_dict ?d)) 2 = Inr [0, 1]"
    by (simp add: f)
  have w: "write_frequency (build_frequency_dict ?d) = Inr [97, 0, 0, 0, 2]"
    by (simp add: f to_bytes_2_4)
  from compress_from_stages [OF t e b s w] show ?thesis by simp
qed

lemma single_symbol_decompress:
  "decompress [0, 1, 97, 0, 0, 0, 2, 8, 0] = Inr []"
proof -
  have "to_bytes (Suc 0) 2 = Inr [0, 1]" by (simp add: to_bytes_def to_bytes_big_2)
  then have s: "to_bytes (length [(97 :: byte, 2 :: nat)]) 2 = Inr [0, 1]" by simp
  have w: "write_frequency [(97, 2)] = Inr [97, 0, 0, 0, 2]" by (simp add: to_bytes_2_4)
  have "distinct (map fst [(97 :: byte, 2 :: nat)])" by simp
  from read_header_container [OF this s w, of "[8, 0]"]
  have h: "read_header [0, 1, 97, 0, 0, 0, 2, 8, 0] = Inr ([(97, 2)], [8, 0])" by simp
  have r: "remove_padding (concat (map byte_bits [8, 0])) = Inr []" by code_simp
  from decompress_from_stages [OF h single_symbol_tree r] show ?thesis
    by (simp add: decode_text_def)
qed

text \<open>
  C1 says that decompress(compress(B)) is B for every B, the empty sequence and a single
  repeated byte included. On the two bytes "aa" compress writes a container with no
  code bits (the only code is the empty string) and decompress returns the empty
  sequence; on the empty input \<open>build_huffman_tree\<close> reads \<open>heap[0]\<close> of an empty
  heap and compress raises IndexError.
\<close>

theorem roundtrip_single_symbol_lost:
  "roundtrip [97, 97] = Inr [] \<and> roundtrip [] = Inl IndexError"
proof -
  have "roundtrip [97, 97] = Inr []"
    by (simp add: roundtrip_def single_symbol_compress single_symbol_decompress)
  moreover have "compress HuffmanEncoder_init [] = Inl IndexError"
    by (simp add: compress_def build_frequency_dict_def build_heap_def build_huffman_tree_empty)
  ultimately show ?thesis by (simp add: roundtrip_def)
qed

section \<open>Bits that do not complete a code\<close>

lemma decode_text_loop_no_code:
  "(\<And>v. v \<noteq> [] \<Longrightarrow> prefix v w \<Longrightarrow> rm (cur @ v) = None) \<Longrightarrow>
   decode_text_loop rm w cur out = out"
proof (induction w arbitrary: cur)
  case Nil
  show ?case by simp
next
  case (Cons b w)
  have n: "rm (cur @ [b]) = None" by (rule Cons.prems) simp_all
  have "decode_text_loop rm w (cur @ [b]) out = out"
  proof (rule Cons.IH)
    fix v :: bits
    assume "v \<noteq> []" "prefix v w"
    then have "rm (cur @ b # v) = None" by (intro Cons.prems) simp_all
    then show "rm ((cur @ [b]) @ v) = None" by simp
  qed
  with n show ?case by simp
qed

text \<open>
  C3 as the specification states it: when the bits run out in the middle of a code, the
  decoder reports an error. The code has no such report. Compressing the eight bytes
  "aabcabbc" gives a container of 20 bytes; without its last byte, decompress reads the
  bits 00111 (after removing 3 padding bits), decodes a, a, b, is left with the single
  bit 1, which is no code, and returns "aab" as if nothing had happened.
\<close>

theorem decompress_truncated_counterexample:
  "compress HuffmanEncoder_init [97, 97, 98, 99, 97, 98, 98, 99] =
     Inr [0, 3, 97, 0, 0, 0, 3, 98, 0, 0, 0, 3, 99, 0, 0, 0, 2, 3, 57, 240] \<and>
   decompress (butlast [0, 3, 97, 0, 0, 0, 3, 98, 0, 0, 0, 3, 99, 0, 0, 0, 2, 3, 57, 240]) =
     Inr [97, 97, 98]"
  by (simp add: example_compress example_decompress_truncated)

text \<open>
  C3, amended: \<open>decode_text\<close> reports nothing. With the tables built from an input
  that has at least two distinct byte values, when the bits are the codes of a sequence
  of symbols of that input followed by bits of which no non-empty prefix is a code, it
  returns that sequence of symbols and drops the trailing bits.
\<close>

theorem decode_text_drops_incomplete_code:
  assumes t: "build_huffman_tree (build_heap (build_frequency_dict data)) = Inr root"
    and two: "2 \<le> card (set data)"
    and sub: "set symbols \<subseteq> set data"
    and e: "get_encoded_text (build_codes root HuffmanEncoder_init) symbols = Inr encoded_text"
    and w: "\<forall>v. v \<noteq> [] \<and> prefix v w \<longrightarrow>
              reverse_mapping (build_codes root HuffmanEncoder_init) v = None"
  shows "decode_text (reverse_mapping (build_codes root HuffmanEncoder_init)) (encoded_text @ w)
         = symbols"
proof -
  let ?rm = "reverse_mapping (build_codes root HuffmanEncoder_init)"
  let ?cs = "codes (build_codes root HuffmanEncoder_init)"
  have c: "\<exists>code. ?cs c = Some code \<and> code \<noteq> [] \<and> ?rm code = Some c" if "c \<in> set symbols" for c
  proof -
    from that sub have "c \<in> set data" by auto
    from tree_codes [OF t this, of HuffmanEncoder_init] two obtain p where
      "(p, c) \<in> set (leaf_paths (Some root))" "?cs c = Some p" "p \<noteq> []" by auto
    then show ?thesis
      using build_codes_reverse_mapping [of p c root HuffmanEncoder_init] by auto
  qed
  then have "?cs c \<noteq> None" if "c \<in> set symbols" for c using that by auto
  then have "get_encoded_text_loop ?cs symbols []
             = Inr ([] @ concat (map (\<lambda>c. the (?cs c)) symbols))"
    by (rule get_encoded_text_loop_concat)
  with e have enc: "encoded_text = concat (map (\<lambda>c. the (?cs c)) symbols)"
    by (simp add: get_encoded_text_def)
  have "decode_text_loop ?rm (concat (map (\<lambda>c. the (?cs c)) symbols) @ w) [] []
        = decode_text_loop ?rm w [] ([] @ symbols)"
  proof (rule decode_text_loop_concat)
    fix p q
    assume "?rm p \<noteq> None" "?rm (p @ q) \<noteq> None"
    then obtain a b where "?rm p = Some a" "?rm (p @ q) = Some b" by auto
    then have "(p, a) \<in> set (leaf_paths (Some root))" "(p @ q, b) \<in> set (leaf_paths (Some root))"
      by (auto dest: build_codes_init_reverse_mapping)
    then show "q = []" using leaf_paths_prefix_free by blast
  next
    fix c
    assume "c \<in> set symbols"
    then show "\<exists>code. ?cs c = Some code \<and> code \<noteq> [] \<and> ?rm code = Some c" by (rule c)
  qed
  also have "\<dots> = [] @ symbols"
    by (rule decode_text_loop_no_code) (use w in simp)
  finally show ?thesis by (simp add: decode_text_def enc)
qed

theorem decode_text_drops_incomplete_code_witness:
  "2 \<le> card (set [97, 97, 98, 99, 97, 98, 98, 99 :: byte]) \<and>
   set [97, 97, 98 :: byte] \<subseteq> set [97, 97, 98, 99, 97, 98, 98, 99] \<and>
   decode_text (reverse_mapping (build_codes
       (HuffmanNode None 8 (Some (HuffmanNode (Some 97) 3 None None))
          (Some (HuffmanNode None 5 (Some (HuffmanNode (Some 99) 2 None None))
                                    (Some (HuffmanNode (Some 98) 3 None None)))))
       HuffmanEncoder_init))
     ([False, False, True, True] @ [True]) = [97, 97, 98]"
proof -
  let ?d = "[97, 97, 98, 99, 97, 98, 98, 99] :: byte list"
  let ?r = "HuffmanNode None 8 (Some (HuffmanNode (Some 97) 3 None None))
          (Some (HuffmanNode None 5 (Some (HuffmanNode (Some 99) 2 None None))
                                    (Some (HuffmanNode (Some 98) 3 None None))))"
  have t: "build_huffman_tree (build_heap (build_frequency_dict ?d)) = Inr ?r"
    by (simp only: example_frequency example_tree)
  have "card (set ?d) = length (build_frequency_dict ?d)"
    by (rule length_build_frequency_dict [symmetric])
  then have two: "2 \<le> card (set ?d)" by (simp only: example_frequency) simp
  have sub: "set [97, 97, 98 :: byte] \<subseteq> set ?d" by simp
  have e: "get_encoded_text (build_codes ?r HuffmanEncoder_init) [97, 97, 98]
           = Inr [False, False, True, True]"
    by (simp add: get_encoded_text_def example_codes)
  have w: "\<forall>v. v \<noteq> [] \<and> prefix v [True] \<longrightarrow>
             reverse_mapping (build_codes ?r HuffmanEncoder_init) v = None"
    by (auto simp: example_reverse_mapping prefix_Cons)
  from decode_text_drops_incomplete_code [OF t two sub e w] two sub show ?thesis by blast
qed

section \<open>The container\<close>





lemma compress_encoder_state:
  "compress self data =
     (case encoder_state self data of
        Inl e \<Rightarrow> Inl e
      | Inr self' \<Rightarrow>
          (case get_encoded_text self' data of
             Inl e \<Rightarrow> Inl e
           | Inr encoded_text \<Rightarrow>
               (case get_byte_array (pad_encoded_text encoded_text) of
                  Inl e \<Rightarrow> Inl e
                | Inr byte_array \<Rightarrow>
                    (case to_bytes (length (build_frequency_dict data)) 2 of
                       Inl e \<Rightarrow> Inl e
                     | Inr size_bytes \<Rightarrow>
                         (case write_frequency (build_frequency_dict data) of
                            Inl e \<Rightarrow> Inl e
                          | Inr records \<Rightarrow> Inr (size_bytes @ records @ byte_array))))))"
  by (simp add: compress_def encoder_state_def Let_def split: sum.splits)

lemma decompress_decoder_encoder:
  "decompress file =
     (case decoder_encoder file of
        Inl e \<Rightarrow> Inl e
      | Inr (encoder, rest) \<Rightarrow>
          (case remove_padding (concat (map byte_bits rest)) of
             Inl e \<Rightarrow> Inl e
           | Inr encoded_text \<Rightarrow> Inr (decode_text (reverse_mapping encoder) encoded_text)))"
  by (simp add: decompress_def decoder_encoder_def Let_def split: sum.splits prod.splits)

text \<open>
  C8: for a container that compress wrote, the encoder that decompress rebuilds from the
  frequency records has the code table (and the reverse mapping) of the encoder that
  compress encoded the input with: \<open>read_header\<close> returns the frequency dict of the
  input, with its items in the same order, and decompress decodes, with the rebuilt
  reverse mapping, the very bits that compress encoded with its code table. Two equal
  maps hold the same symbol-to-code pairs.
\<close>

theorem decoder_rebuilds_code_table:
  assumes "compress HuffmanEncoder_init data = Inr container"
  shows "\<exists>encoder_e encoder_d rest encoded_text.
     encoder_state HuffmanEncoder_init data = Inr encoder_e \<and>
     get_encoded_text encoder_e data = Inr encoded_text \<and>
     read_header container = Inr (build_frequency_dict data, rest) \<and>
     decoder_encoder container = Inr (encoder_d, rest) \<and>
     codes encoder_d = codes encoder_e \<and>
     reverse_mapping encoder_d = reverse_mapping encoder_e \<and>
     remove_padding (concat (map byte_bits rest)) = Inr encoded_text \<and>
     decompress container = Inr (decode_text (reverse_mapping encoder_d) encoded_text)"
proof -
  let ?f = "build_frequency_dict data"
  from compress_stages [OF assms] obtain root encoded_text byte_array size_bytes records where
    t: "build_huffman_tree (build_heap ?f) = Inr root"
    and e: "get_encoded_text (build_codes root HuffmanEncoder_init) data = Inr encoded_text"
    and g: "get_byte_array (pad_encoded_text encoded_text) = Inr byte_array"
    and s: "to_bytes (length ?f) 2 = Inr size_bytes"
    and w: "write_frequency ?f = Inr records"
    and k: "container = size_bytes @ records @ byte_array"
    by blast
  let ?enc = "build_codes root HuffmanEncoder_init"
  have h: "read_header container = Inr (?f, byte_array)"
    unfolding k using distinct_build_frequency_dict s w by (rule read_header_container)
  have es: "encoder_state HuffmanEncoder_init data = Inr ?enc"
    using t by (simp add: encoder_state_def)
  have de: "decoder_encoder container = Inr (?enc, byte_array)"
    using h t by (simp add: decoder_encoder_def)
  have "concat (map byte_bits byte_array) = pad_encoded_text encoded_text"
    using g by (rule get_byte_array_bits)
  then have r: "remove_padding (concat (map byte_bits byte_array)) = Inr encoded_text"
    by (simp add: remove_padding_pad)
  have d: "decompress container = Inr (decode_text (reverse_mapping ?enc) encoded_text)"
    by (simp add: decompress_decoder_encoder de r)
  from es e h de r d show ?thesis by blast
qed

theorem decoder_rebuilds_code_table_witness:
  "compress HuffmanEncoder_init [97, 97, 98, 99, 97, 98, 98, 99] =
     Inr [0, 3, 97, 0, 0, 0, 3, 98, 0, 0, 0, 3, 99, 0, 0, 0, 2, 3, 57, 240] \<and>
   (\<exists>encoder_e encoder_d rest.
      encoder_state HuffmanEncoder_init [97, 97, 98, 99, 97, 98, 98, 99] = Inr encoder_e \<and>
      decoder_encoder [0, 3, 97, 0, 0, 0, 3, 98, 0, 0, 0, 3, 99, 0, 0, 0, 2, 3, 57, 240]
        = Inr (encoder_d, rest) \<and>
      codes encoder_d = codes encoder_e)"
  using decoder_rebuilds_code_table [OF example_compress] example_compress by blast

text \<open>
  C10: in a container that compress wrote, the padding-count byte, which follows the
  two bytes of the count and the five bytes of each record, holds a value from 1 to 8,
  and \<open>remove_padding\<close> removes that many bits, so at least one, from the end of the
  bits behind it. With a count of 0 the slice \<open>[:-0]\<close> would be empty.
\<close>

theorem padding_count_byte_range:
  assumes "compress self data = Inr container"
  shows "2 + 5 * card (set data) < length container \<and>
     unat (container ! (2 + 5 * card (set data))) \<in> {1..8} \<and>
     (\<exists>encoded_text.
        remove_padding (concat (map byte_bits (drop (2 + 5 * card (set data)) container)))
          = Inr encoded_text \<and>
        length encoded_text + unat (container ! (2 + 5 * card (set data)))
          = length (concat (map byte_bits (drop (2 + 5 * card (set data)) container))) - 8) \<and>
     slice_to_minus s 0 = []"
proof -
  let ?f = "build_frequency_dict data"
  let ?i = "2 + 5 * card (set data)"
  from compress_stages [OF assms] obtain root encoded_text byte_array size_bytes records where
    g: "get_byte_array (pad_encoded_text encoded_text) = Inr byte_array"
    and s: "to_bytes (length ?f) 2 = Inr size_bytes"
    and w: "write_frequency ?f = Inr records"
    and k: "container = size_bytes @ records @ byte_array"
    by blast
  from get_byte_array_pad [of encoded_text] g obtain packed where
    b: "byte_array = of_nat (extra_padding encoded_text) # packed" by auto
  from to_bytes_Inr [OF s] have ls: "length size_bytes = 2" by simp
  from write_frequency_length [OF w] have lr: "length records = 5 * card (set data)"
    by (simp add: length_build_frequency_dict)
  have k': "container = (size_bytes @ records) @ byte_array" using k by simp
  have li: "length (size_bytes @ records) = ?i" using ls lr by simp
  have d: "drop ?i container = byte_array"
    unfolding k' using li by (metis append_eq_conv_conj)
  have n: "container ! ?i = of_nat (extra_padding encoded_text)"
    unfolding k' using li b by (metis nth_append_length)
  have r: "1 \<le> extra_padding encoded_text \<and> extra_padding encoded_text \<le> 8"
    by (rule extra_padding_range)
  then have "unat (of_nat (extra_padding encoded_text) :: byte) = extra_padding encoded_text"
    by (simp add: unat_of_nat)
  then have u: "unat (container ! ?i) = extra_padding encoded_text"
    by (simp only: n)
  have bits: "concat (map byte_bits byte_array) = pad_encoded_text encoded_text"
    using g by (rule get_byte_array_bits)
  have "?i < length container" unfolding k' using li b by simp
  moreover have "unat (container ! ?i) \<in> {1..8}" using r by (simp only: u) simp
  moreover have "remove_padding (concat (map byte_bits (drop ?i container))) = Inr encoded_text"
    by (simp only: d bits remove_padding_pad)
  moreover have "length encoded_text + unat (container ! ?i)
      = length (concat (map byte_bits (drop ?i container))) - 8"
    by (simp only: d bits u length_pad add_diff_cancel_left')
  moreover have "slice_to_minus s 0 = []" by (simp add: slice_to_minus_def)
  ultimately show ?thesis by blast
qed

theorem padding_count_byte_range_witness:
  "compress HuffmanEncoder_init [97, 97, 98, 99, 97, 98, 98, 99] =
     Inr [0, 3, 97, 0, 0, 0, 3, 98, 0, 0, 0, 3, 99, 0, 0, 0, 2, 3, 57, 240] \<and>
   unat ([0, 3, 97, 0, 0, 0, 3, 98, 0, 0, 0, 3, 99, 0, 0, 0, 2, 3, 57, 240 :: byte]
           ! (2 + 5 * card (set [97, 97, 98, 99, 97, 98, 98, 99 :: byte]))) \<in> {1..8}"
  using padding_count_byte_range [OF example_compress] example_compress by blast

end
